theory Spec2Isabelle
  imports Complex_Main "HOL-Library.Word" "HOL-Library.Multiset"
begin

section \<open>Characters and strings\<close>

text \<open>
  A \<open>std::string\<close> is a list of bytes. The classification and case functions of
  \<open><cctype>\<close> are those of the C locale: only the ASCII letters have a case, and
  every other byte is left as it is.
\<close>

definition isupper :: "char \<Rightarrow> bool" where
  "isupper c = (65 \<le> (of_char c :: nat) \<and> (of_char c :: nat) \<le> 90)"

definition islower :: "char \<Rightarrow> bool" where
  "islower c = (97 \<le> (of_char c :: nat) \<and> (of_char c :: nat) \<le> 122)"

definition isalpha :: "char \<Rightarrow> bool" where
  "isalpha c = (isupper c \<or> islower c)"

definition isdigit :: "char \<Rightarrow> bool" where
  "isdigit c = (48 \<le> (of_char c :: nat) \<and> (of_char c :: nat) \<le> 57)"

definition isalnum :: "char \<Rightarrow> bool" where
  "isalnum c = (isalpha c \<or> isdigit c)"

text \<open>Space, and the five control characters from horizontal tab to carriage return.\<close>

definition isspace :: "char \<Rightarrow> bool" where
  "isspace c = ((of_char c :: nat) = 32 \<or> (9 \<le> (of_char c :: nat) \<and> (of_char c :: nat) \<le> 13))"

definition tolower :: "char \<Rightarrow> char" where
  "tolower c = (if isupper c then char_of ((of_char c :: nat) + 32) else c)"

definition toupper :: "char \<Rightarrow> char" where
  "toupper c = (if islower c then char_of ((of_char c :: nat) - 32) else c)"

text \<open>\<open>std::transform(s.begin(), s.end(), s.begin(), ::tolower)\<close>\<close>

definition to_lower :: "string \<Rightarrow> string" where
  "to_lower s = map tolower s"


section \<open>Unordered containers\<close>

text \<open>
  \<open>std::unordered_set\<close> and \<open>std::unordered_map\<close> are kept as lists without
  repeated keys, in the order in which the container is iterated. The C++ standard
  leaves that order open. The model links a new key at the head of the list, which
  is what a chained hash table does for a key that falls in an empty bucket; an
  existing key keeps its place. The theorems about a dictionary below are stated
  for dictionaries with any order of the entries.
\<close>

definition uset_insert :: "'a \<Rightarrow> 'a list \<Rightarrow> 'a list" where
  "uset_insert x xs = (if x \<in> set xs then xs else x # xs)"

fun umap_replace :: "'k \<Rightarrow> 'v \<Rightarrow> ('k \<times> 'v) list \<Rightarrow> ('k \<times> 'v) list" where
  "umap_replace k v [] = []"
| "umap_replace k v (e # m) = (if fst e = k then (k, v) # m else e # umap_replace k v m)"

text \<open>\<open>m[k] = v\<close>\<close>

definition umap_assign :: "'k \<Rightarrow> 'v \<Rightarrow> ('k \<times> 'v) list \<Rightarrow> ('k \<times> 'v) list" where
  "umap_assign k v m = (case map_of m k of None \<Rightarrow> (k, v) # m | Some _ \<Rightarrow> umap_replace k v m)"

text \<open>\<open>m.erase(k)\<close>\<close>

definition umap_erase :: "'k \<Rightarrow> ('k \<times> 'v) list \<Rightarrow> ('k \<times> 'v) list" where
  "umap_erase k m = filter (\<lambda>e. fst e \<noteq> k) m"


section \<open>The dictionary\<close>

subsection \<open>Phonetic code\<close>

text \<open>The \<open>switch\<close> of \<open>generatePhoneticCode\<close>; \<open>None\<close> is the \<open>default: continue\<close>.\<close>

definition phonetic_digit :: "char \<Rightarrow> char option" where
  "phonetic_digit c =
     (if c \<in> set ''bfpv'' then Some CHR ''1''
      else if c \<in> set ''cgjkqsxz'' then Some CHR ''2''
      else if c \<in> set ''dt'' then Some CHR ''3''
      else if c = CHR ''l'' then Some CHR ''4''
      else if c \<in> set ''mn'' then Some CHR ''5''
      else if c = CHR ''r'' then Some CHR ''6''
      else None)"

text \<open>
  The \<open>for\<close> loop over \<open>word[1..]\<close>, which stops as soon as the code has four
  characters: the first argument is the part of the word not yet read.
\<close>

fun phonetic_loop :: "string \<Rightarrow> string \<Rightarrow> string" where
  "phonetic_loop [] code = code"
| "phonetic_loop (c # cs) code =
     (if length code < 4 then
        (case phonetic_digit (tolower c) of
           None \<Rightarrow> phonetic_loop cs code
         | Some digit \<Rightarrow>
             if code = [] \<or> last code \<noteq> digit then phonetic_loop cs (code @ [digit])
             else phonetic_loop cs code)
      else code)"

text \<open>\<open>while (code.length() < 4) code += '0';\<close>\<close>

function pad_zeros :: "string \<Rightarrow> string" where
  "pad_zeros code = (if length code < 4 then pad_zeros (code @ [CHR ''0'']) else code)"
  by pat_completeness auto
termination
  by (relation "measure (\<lambda>code. 4 - length code)") auto

definition generatePhoneticCode :: "string \<Rightarrow> string" where
  "generatePhoneticCode word =
     (case word of
        [] \<Rightarrow> []
      | c # cs \<Rightarrow> pad_zeros (phonetic_loop cs [toupper c]))"

subsection \<open>The trie\<close>

text \<open>
  \<open>struct TrieNode\<close>: the children are an \<open>unordered_map\<close> from a character to the
  node it owns.
\<close>

datatype trie = TrieNode (is_word: bool) (frequency: "32 word") (children: "(char \<times> trie) list")

definition empty_node :: trie where
  "empty_node = TrieNode False 0 []"

fun insertIntoTrie :: "trie \<Rightarrow> string \<Rightarrow> 32 word \<Rightarrow> trie" where
  "insertIntoTrie (TrieNode b f cs) [] fr = TrieNode True fr cs"
| "insertIntoTrie (TrieNode b f cs) (c # w) fr =
     (case map_of cs c of
        None \<Rightarrow> TrieNode b f ((c, insertIntoTrie empty_node w fr) # cs)
      | Some t \<Rightarrow> TrieNode b f (umap_replace c (insertIntoTrie t w fr) cs))"

text \<open>
  \<open>collectWordsWithPrefix\<close> appends to \<open>results\<close>, which it takes by reference: the
  model takes the vector and returns it. The second function is the \<open>for\<close> loop over
  the children of a node.
\<close>

fun collectWordsWithPrefix :: "trie \<Rightarrow> string \<Rightarrow> string list \<Rightarrow> nat \<Rightarrow> string list"
  and collect_children :: "(char \<times> trie) list \<Rightarrow> string \<Rightarrow> string list \<Rightarrow> nat \<Rightarrow> string list" where
  "collectWordsWithPrefix (TrieNode b f cs) prefix results max_results =
     (if length results \<ge> max_results then results
      else collect_children cs prefix (if b then results @ [prefix] else results) max_results)"
| "collect_children [] prefix results max_results = results"
| "collect_children (child # cs) prefix results max_results =
     collect_children cs prefix
       (collectWordsWithPrefix (snd child) (prefix @ [fst child]) results max_results) max_results"

text \<open>The descent along the prefix in \<open>getWordsWithPrefix\<close>; \<open>None\<close> when a character has no child.\<close>

fun descend :: "trie \<Rightarrow> string \<Rightarrow> trie option" where
  "descend t [] = Some t"
| "descend t (c # cs) = (case map_of (children t) c of None \<Rightarrow> None | Some t' \<Rightarrow> descend t' cs)"

subsection \<open>Sorting\<close>

text \<open>
  \<open>std::sort(first, last, cmp)\<close> puts the range in an order in which no element
  comes before one that \<open>cmp\<close> puts in front of it, and promises nothing about the
  order of elements that \<open>cmp\<close> does not tell apart. The model is insertion sort,
  which keeps such elements in the order they had: each element in turn is moved
  towards the front, past the elements it must come before.
\<close>

fun sort_insert :: "('a \<Rightarrow> 'a \<Rightarrow> bool) \<Rightarrow> 'a \<Rightarrow> 'a list \<Rightarrow> 'a list" where
  "sort_insert cmp x [] = [x]"
| "sort_insert cmp x (y # ys) = (if cmp x y then x # y # ys else y # sort_insert cmp x ys)"

definition std_sort :: "('a \<Rightarrow> 'a \<Rightarrow> bool) \<Rightarrow> 'a list \<Rightarrow> 'a list" where
  "std_sort cmp xs = fold (sort_insert cmp) xs []"

subsection \<open>State and operations\<close>

text \<open>
  \<open>class Dictionary\<close>. The field \<open>memory_usage_\<close> is a sum of \<open>sizeof\<close> values that
  only \<open>getStats\<close> reads; it is left out.
\<close>

record dictionary =
  trie_root :: trie
  word_set :: "string list"
  word_frequencies :: "(string \<times> 32 word) list"
  phonetic_map :: "(string \<times> string list) list"
  word_count :: nat

definition clear :: "dictionary \<Rightarrow> dictionary" where
  "clear d = \<lparr>trie_root = empty_node, word_set = [], word_frequencies = [],
              phonetic_map = [], word_count = 0\<rparr>"

text \<open>The constructor.\<close>

definition Dictionary :: dictionary where
  "Dictionary = \<lparr>trie_root = empty_node, word_set = [], word_frequencies = [],
                 phonetic_map = [], word_count = 0\<rparr>"

text \<open>\<open>phonetic_map_[code]\<close> read as a value: a missing key stands for the empty vector.\<close>

definition bucket :: "(string \<times> string list) list \<Rightarrow> string \<Rightarrow> string list" where
  "bucket m code = (case map_of m code of None \<Rightarrow> [] | Some ws \<Rightarrow> ws)"

definition addWord :: "dictionary \<Rightarrow> string \<Rightarrow> 32 word \<Rightarrow> dictionary" where
  "addWord d word freq =
     (if word = [] then d
      else
        let normalized_word = to_lower word;
            is_new_word = (normalized_word \<notin> set (word_set d));
            phonetic_code = generatePhoneticCode normalized_word
        in \<lparr>trie_root = insertIntoTrie (trie_root d) normalized_word freq,
            word_set = uset_insert normalized_word (word_set d),
            word_frequencies = umap_assign normalized_word freq (word_frequencies d),
            phonetic_map = umap_assign phonetic_code
                             (bucket (phonetic_map d) phonetic_code @ [normalized_word])
                             (phonetic_map d),
            word_count = (if is_new_word then word_count d + 1 else word_count d)\<rparr>)"

definition removeWord :: "dictionary \<Rightarrow> string \<Rightarrow> bool \<times> dictionary" where
  "removeWord d word =
     (let normalized_word = to_lower word in
      if normalized_word \<notin> set (word_set d) then (False, d)
      else
        let phonetic_code = generatePhoneticCode normalized_word;
            phonetic_words = removeAll normalized_word (bucket (phonetic_map d) phonetic_code)
        in (True,
            d\<lparr>word_set := removeAll normalized_word (word_set d),
              word_frequencies := umap_erase normalized_word (word_frequencies d),
              phonetic_map := (if phonetic_words = [] then umap_erase phonetic_code (phonetic_map d)
                               else umap_assign phonetic_code phonetic_words (phonetic_map d)),
              word_count := word_count d - 1\<rparr>))"

definition containsWord :: "dictionary \<Rightarrow> string \<Rightarrow> bool" where
  "containsWord d word = (to_lower word \<in> set (word_set d))"

definition getWordFrequency :: "dictionary \<Rightarrow> string \<Rightarrow> 32 word" where
  "getWordFrequency d word =
     (case map_of (word_frequencies d) (to_lower word) of None \<Rightarrow> 0 | Some f \<Rightarrow> f)"

definition getWordsWithPrefix :: "dictionary \<Rightarrow> string \<Rightarrow> nat \<Rightarrow> string list" where
  "getWordsWithPrefix d prefix max_results =
     (let normalized_prefix = to_lower prefix in
      case descend (trie_root d) normalized_prefix of
        None \<Rightarrow> []
      | Some current \<Rightarrow>
          std_sort (\<lambda>a b. getWordFrequency d a > getWordFrequency d b)
            (collectWordsWithPrefix current normalized_prefix [] max_results))"

definition getPhoneticMatches :: "dictionary \<Rightarrow> string \<Rightarrow> string list" where
  "getPhoneticMatches d word = bucket (phonetic_map d) (generatePhoneticCode word)"

definition getAllWords :: "dictionary \<Rightarrow> string list" where
  "getAllWords d = word_set d"

definition size_dict :: "dictionary \<Rightarrow> nat" where
  "size_dict d = word_count d"


subsection \<open>Shape of a phonetic code\<close>

text \<open>The characters \<open>'0'\<close> to \<open>'6'\<close>.\<close>

definition code_digit :: "char \<Rightarrow> bool" where
  "code_digit c = (c \<in> set ''0123456'')"

text \<open>The digits that the loop appends: \<open>'1'\<close> to \<open>'6'\<close>, never \<open>'0'\<close>.\<close>

definition loop_digit :: "char \<Rightarrow> bool" where
  "loop_digit c = (c \<in> set ''123456'')"

text \<open>
  A code under construction: the first character \<open>h\<close>, then at most three digits
  of the loop.
\<close>

definition code_shape :: "char \<Rightarrow> string \<Rightarrow> bool" where
  "code_shape h code = (\<exists>ds. code = h # ds \<and> length ds \<le> 3 \<and> (\<forall>c\<in>set ds. loop_digit c))"


subsection \<open>Words of the trie, invariants and reachable states\<close>

text \<open>\<open>w\<close> starts with \<open>p\<close>.\<close>

definition starts_with :: "string \<Rightarrow> string \<Rightarrow> bool" where
  "starts_with w p = (take (length p) w = p)"

text \<open>
  The words of a trie: the paths from the node to a node marked \<open>is_word\<close>, through
  any entry of the children.
\<close>

inductive terminal :: "trie \<Rightarrow> string \<Rightarrow> bool" where
  here: "is_word t \<Longrightarrow> terminal t []"
| below: "(c, t') \<in> set (children t) \<Longrightarrow> terminal t' w \<Longrightarrow> terminal t (c # w)"

text \<open>Every word of the exact set is non-empty and in lowercase.\<close>

definition words_lowercase :: "dictionary \<Rightarrow> bool" where
  "words_lowercase d = (\<forall>w\<in>set (word_set d). w \<noteq> [] \<and> to_lower w = w)"

text \<open>Every word of the trie is in the exact set.\<close>

definition trie_agrees :: "dictionary \<Rightarrow> bool" where
  "trie_agrees d = (\<forall>w. terminal (trie_root d) w \<longrightarrow> w \<in> set (word_set d))"

text \<open>The states built from the constructor by \<open>addWord\<close> and \<open>clear\<close> alone.\<close>

inductive add_only :: "dictionary \<Rightarrow> bool" where
  fresh: "add_only Dictionary"
| added: "add_only d \<Longrightarrow> add_only (addWord d w f)"
| cleared: "add_only d \<Longrightarrow> add_only (clear d)"

text \<open>Every word of a phonetic bucket is in the exact set.\<close>

definition buckets_agree :: "dictionary \<Rightarrow> bool" where
  "buckets_agree d = (\<forall>code ws. map_of (phonetic_map d) code = Some ws \<longrightarrow> set ws \<subseteq> set (word_set d))"

text \<open>The frequency map has one entry for each word of the exact set.\<close>

definition frequencies_agree :: "dictionary \<Rightarrow> bool" where
  "frequencies_agree d = (distinct (map fst (word_frequencies d)) \<and>
     set (map fst (word_frequencies d)) = set (word_set d))"

text \<open>The states built from the constructor by \<open>addWord\<close>, \<open>removeWord\<close> and \<open>clear\<close>.\<close>

inductive reachable :: "dictionary \<Rightarrow> bool" where
  r_fresh: "reachable Dictionary"
| r_added: "reachable d \<Longrightarrow> reachable (addWord d w f)"
| r_removed: "reachable d \<Longrightarrow> reachable (snd (removeWord d w))"
| r_cleared: "reachable d \<Longrightarrow> reachable (clear d)"

text \<open>The lexicon \<open>{tea:5, ten:10, the:100, test:2}\<close>, added in this order.\<close>

definition lexicon_te :: dictionary where
  "lexicon_te = addWord (addWord (addWord (addWord Dictionary ''tea'' 5) ''ten'' 10) ''the'' 100) ''test'' 2"


section \<open>The suggestion engine\<close>

subsection \<open>Edit distance\<close>

text \<open>
  \<open>calculateEditDistance\<close> fills a table of \<open>len1 + 1\<close> rows and \<open>len2 + 1\<close>
  columns, a vector of vectors of \<open>size_t\<close>. No entry exceeds the longer of the
  two lengths, so the arithmetic of \<open>size_t\<close> never wraps and the entries are
  natural numbers. \<open>dp_set dp i j v\<close> is the assignment \<open>dp[i][j] = v\<close>.
\<close>

definition dp_set :: "nat list list \<Rightarrow> nat \<Rightarrow> nat \<Rightarrow> nat \<Rightarrow> nat list list" where
  "dp_set dp i j v = dp[i := (dp ! i)[j := v]]"

text \<open>The value the inner loop stores in \<open>dp[i][j]\<close>, for \<open>i, j \<ge> 1\<close>.\<close>

definition dp_cell :: "string \<Rightarrow> string \<Rightarrow> nat list list \<Rightarrow> nat \<Rightarrow> nat \<Rightarrow> nat" where
  "dp_cell word1 word2 dp i j =
     (if word1 ! (i - 1) = word2 ! (j - 1) then dp ! (i - 1) ! (j - 1)
      else 1 + min (dp ! (i - 1) ! j) (min (dp ! i ! (j - 1)) (dp ! (i - 1) ! (j - 1))))"

text \<open>
  The three initialising loops and the two nested loops, each a \<open>fold\<close> over the
  values its index takes.
\<close>

definition calculateEditDistance :: "string \<Rightarrow> string \<Rightarrow> nat" where
  "calculateEditDistance word1 word2 =
     (let len1 = length word1;
          len2 = length word2;
          dp0 = replicate (len1 + 1) (replicate (len2 + 1) 0);
          dp1 = fold (\<lambda>i dp. dp_set dp i 0 i) [0..<len1 + 1] dp0;
          dp2 = fold (\<lambda>j dp. dp_set dp 0 j j) [0..<len2 + 1] dp1;
          dp3 = fold (\<lambda>i dp. fold (\<lambda>j dp. dp_set dp i j (dp_cell word1 word2 dp i j))
                                  [1..<len2 + 1] dp)
                     [1..<len1 + 1] dp2
      in dp3 ! len1 ! len2)"

text \<open>
  The reference the table is compared with: the distance of two lists by recursion
  on the lists, with the cases of the inner loop.
\<close>

fun edit :: "'a list \<Rightarrow> 'a list \<Rightarrow> nat" where
  "edit [] ys = length ys"
| "edit (x # xs) [] = Suc (length xs)"
| "edit (x # xs) (y # ys) =
     (if x = y then edit xs ys
      else 1 + min (edit xs (y # ys)) (min (edit (x # xs) ys) (edit xs ys)))"

text \<open>
  An edit script from one list to another with its cost: characters are kept at no
  cost, and substituted, deleted or inserted at cost one.
\<close>

inductive script :: "'a list \<Rightarrow> 'a list \<Rightarrow> nat \<Rightarrow> bool" where
  s_nil: "script [] [] 0"
| s_keep: "script xs ys n \<Longrightarrow> script (x # xs) (x # ys) n"
| s_subst: "script xs ys n \<Longrightarrow> script (x # xs) (y # ys) (Suc n)"
| s_delete: "script xs ys n \<Longrightarrow> script (x # xs) ys (Suc n)"
| s_insert: "script xs ys n \<Longrightarrow> script xs (y # ys) (Suc n)"

text \<open>A table of \<open>n\<close> rows of \<open>m\<close> entries.\<close>

definition dims :: "nat list list \<Rightarrow> nat \<Rightarrow> nat \<Rightarrow> bool" where
  "dims dp n m = (length dp = n \<and> (\<forall>r<n. length (dp ! r) = m))"

text \<open>The distance of the prefixes of length \<open>i\<close> and \<open>j\<close>, which \<open>dp[i][j]\<close> is to hold.\<close>

definition prefix_distance :: "string \<Rightarrow> string \<Rightarrow> nat \<Rightarrow> nat \<Rightarrow> nat" where
  "prefix_distance word1 word2 i j = edit (rev (take i word1)) (rev (take j word2))"

text \<open>
  The state of the table when the nested loops are about to store \<open>dp[i][j]\<close>: the
  first column is initialised, and the rows above \<open>i\<close> and the entries of row \<open>i\<close>
  to the left of \<open>j\<close> hold the distances of the prefixes.
\<close>

definition filled :: "string \<Rightarrow> string \<Rightarrow> nat list list \<Rightarrow> nat \<Rightarrow> nat \<Rightarrow> bool" where
  "filled w1 w2 dp i j =
     (dims dp (length w1 + 1) (length w2 + 1) \<and>
      (\<forall>r\<le>length w1. dp ! r ! 0 = r) \<and>
      (\<forall>r c. r \<le> length w1 \<and> c \<le> length w2 \<and> (r < i \<or> (r = i \<and> c < j)) \<longrightarrow>
             dp ! r ! c = prefix_distance w1 w2 r c))"


subsection \<open>The engine and its candidates\<close>

text \<open>
  \<open>class SuggestionEngine\<close>. The pointer \<open>dictionary_\<close> is \<open>None\<close> when null. The
  weights are doubles, read as reals.
\<close>

record engine =
  dictionary_ptr :: "dictionary option"
  max_edit_distance :: nat
  max_suggestions :: nat
  edit_distance_weight :: real
  frequency_weight :: real
  phonetic_weight :: real
  prefix_weight :: real

text \<open>The constructor.\<close>

definition SuggestionEngine :: "dictionary option \<Rightarrow> engine" where
  "SuggestionEngine d =
     \<lparr>dictionary_ptr = d, max_edit_distance = 2, max_suggestions = 10,
      edit_distance_weight = 1, frequency_weight = 1 / 2, phonetic_weight = 3 / 10,
      prefix_weight = 1 / 5\<rparr>"

definition alphabet :: string where
  "alphabet = ''abcdefghijklmnopqrstuvwxyz''"

text \<open>\<open>word.substr(0, i) + word.substr(i + 1)\<close> for each \<open>i < length\<close>.\<close>

definition generateDeletionCandidates :: "string \<Rightarrow> string list" where
  "generateDeletionCandidates word =
     map (\<lambda>i. take i word @ drop (i + 1) word) [0..<length word]"

definition generateInsertionCandidates :: "string \<Rightarrow> string list" where
  "generateInsertionCandidates word =
     concat (map (\<lambda>i. map (\<lambda>c. take i word @ [c] @ drop i word) alphabet) [0..<length word + 1])"

definition generateSubstitutionCandidates :: "string \<Rightarrow> string list" where
  "generateSubstitutionCandidates word =
     concat (map (\<lambda>i. map (\<lambda>c. word[i := c]) (filter (\<lambda>c. c \<noteq> word ! i) alphabet))
                 [0..<length word])"

text \<open>
  The bound \<open>word.length() - 1\<close> is unsigned and wraps for the empty word;
  \<open>generateSuggestions\<close> returns before it calls the generators with an empty word.
\<close>

definition generateTranspositionCandidates :: "string \<Rightarrow> string list" where
  "generateTranspositionCandidates word =
     map (\<lambda>i. word[i := word ! (i + 1), i + 1 := word ! i]) [0..<length word - 1]"

text \<open>
  \<open>generateSplitCandidates\<close> reads \<open>dictionary_\<close> without a null check;
  \<open>generateSuggestions\<close> calls it after its own check, so the model takes the
  dictionary.
\<close>

definition generateSplitCandidates :: "dictionary \<Rightarrow> string \<Rightarrow> string list" where
  "generateSplitCandidates d word =
     concat (map (\<lambda>i. let first_part = take i word; second_part = drop i word in
                        if containsWord d first_part \<and> containsWord d second_part
                        then [first_part @ '' '' @ second_part] else [])
                 [1..<length word])"

definition generatePhoneticSuggestions :: "engine \<Rightarrow> string \<Rightarrow> string list" where
  "generatePhoneticSuggestions eng word =
     (case dictionary_ptr eng of None \<Rightarrow> [] | Some d \<Rightarrow> getPhoneticMatches d word)"

text \<open>\<open>operator<\<close> of \<open>std::string\<close>: lexicographic, on the bytes as unsigned values.\<close>

fun string_less :: "string \<Rightarrow> string \<Rightarrow> bool" where
  "string_less [] [] = False"
| "string_less [] (y # ys) = True"
| "string_less (x # xs) [] = False"
| "string_less (x # xs) (y # ys) =
     ((of_char x :: nat) < of_char y \<or> (x = y \<and> string_less xs ys))"

text \<open>\<open>std::unique\<close> after the sort is \<open>remdups_adj\<close>.\<close>

definition generatePrefixSuggestions :: "engine \<Rightarrow> string \<Rightarrow> string list" where
  "generatePrefixSuggestions eng word =
     (case dictionary_ptr eng of
        None \<Rightarrow> []
      | Some d \<Rightarrow>
          let suggestions =
                concat (map (\<lambda>len. getWordsWithPrefix d (take len word) 20)
                            [min (length word) 3..<length word + 1])
          in remdups_adj (std_sort string_less suggestions))"

text \<open>
  The loops of \<open>generateSuggestions\<close> that fill \<open>candidate_set\<close>: the first kind
  inserts the candidates that the dictionary contains, the second inserts all.
\<close>

definition insert_known :: "dictionary \<Rightarrow> string list \<Rightarrow> string list \<Rightarrow> string list" where
  "insert_known d candidates candidate_set =
     fold (\<lambda>candidate s. if containsWord d candidate then uset_insert candidate s else s)
       candidates candidate_set"

definition insert_all :: "string list \<Rightarrow> string list \<Rightarrow> string list" where
  "insert_all candidates candidate_set = fold uset_insert candidates candidate_set"

text \<open>
  The first part of \<open>generateSuggestions\<close>, up to the vector \<open>candidates\<close> built
  from the iteration of \<open>candidate_set\<close>.
\<close>

definition collectCandidates :: "engine \<Rightarrow> dictionary \<Rightarrow> string \<Rightarrow> string list" where
  "collectCandidates eng d word =
     (let deletions = generateDeletionCandidates word;
          insertions = generateInsertionCandidates word;
          substitutions = generateSubstitutionCandidates word;
          transpositions = generateTranspositionCandidates word;
          splits = generateSplitCandidates d word;
          phonetic = generatePhoneticSuggestions eng word;
          prefix = generatePrefixSuggestions eng word;
          s1 = insert_known d deletions [];
          s2 = insert_known d insertions s1;
          s3 = insert_known d substitutions s2;
          s4 = insert_known d transpositions s3;
          s5 = insert_known d splits s4;
          s6 = insert_all phonetic s5;
          s7 = insert_all prefix s6
      in s7)"

text \<open>
  The last loop of \<open>rankCandidates\<close>: it appends a word and then tests whether
  \<open>max_suggestions_\<close> is reached.
\<close>

fun take_ranked :: "(string \<times> real) list \<Rightarrow> string list \<Rightarrow> nat \<Rightarrow> string list" where
  "take_ranked [] ranked_suggestions m = ranked_suggestions"
| "take_ranked (scored_candidate # rest) ranked_suggestions m =
     (let ranked = ranked_suggestions @ [fst scored_candidate]
      in if length ranked \<ge> m then ranked else take_ranked rest ranked m)"

text \<open>
  The score of a candidate is a double. \<open>rankCandidates\<close> and
  \<open>generateSuggestions\<close> take the function that computes it as their first argument
  \<open>score\<close> (\<open>score word candidate\<close> is the value of the double), so that what is
  proved of them holds for the values that the floating-point arithmetic gives,
  whatever they are.
\<close>

definition rankCandidates ::
  "(string \<Rightarrow> string \<Rightarrow> real) \<Rightarrow> engine \<Rightarrow> string \<Rightarrow> string list \<Rightarrow> string list" where
  "rankCandidates score eng word candidates =
     (let scored_candidates = map (\<lambda>candidate. (candidate, score word candidate)) candidates;
          sorted_candidates = std_sort (\<lambda>a b. snd a > snd b) scored_candidates
      in take_ranked sorted_candidates [] (max_suggestions eng))"

definition generateSuggestions ::
  "(string \<Rightarrow> string \<Rightarrow> real) \<Rightarrow> engine \<Rightarrow> string \<Rightarrow> string list" where
  "generateSuggestions score eng word =
     (case dictionary_ptr eng of
        None \<Rightarrow> []
      | Some d \<Rightarrow>
          if word = [] then []
          else rankCandidates score eng word (collectCandidates eng d word))"

text \<open>
  The formula of \<open>calculateSuggestionScore\<close> over the reals. It is used for the
  concrete inputs below, where the two scores compared are computed from the same
  numbers.
\<close>

definition calculateSuggestionScore :: "engine \<Rightarrow> dictionary \<Rightarrow> string \<Rightarrow> string \<Rightarrow> real" where
  "calculateSuggestionScore eng d original candidate =
     (let edit_distance = calculateEditDistance original candidate;
          edit_score = 1 / (1 + real edit_distance);
          frequency = getWordFrequency d candidate;
          freq_score = ln (1 + real (unat frequency)) / 10;
          length_ratio = real (min (length original) (length candidate)) /
                         real (max (length original) (length candidate));
          common_prefix = length (takeWhile (\<lambda>(a, b). a = b) (zip original candidate));
          prefix_score = real common_prefix / real (length original)
      in edit_distance_weight eng * edit_score + frequency_weight eng * freq_score
         + (1 / 10) * length_ratio + prefix_weight eng * prefix_score)"

text \<open>Lexicons and engines for the concrete inputs.\<close>

definition lexicon_at_it :: dictionary where
  "lexicon_at_it = addWord (addWord Dictionary ''at'' 1) ''it'' 1"

definition lexicon_in_to :: dictionary where
  "lexicon_in_to = addWord (addWord Dictionary ''in'' 1) ''to'' 1"

text \<open>The candidates in the order the sort of \<open>rankCandidates\<close> leaves them in.\<close>

definition ranked_pool :: "(string \<Rightarrow> string \<Rightarrow> real) \<Rightarrow> string \<Rightarrow> string list \<Rightarrow> string list" where
  "ranked_pool score word candidates =
     map fst (std_sort (\<lambda>a b. snd a > snd b)
                (map (\<lambda>candidate. (candidate, score word candidate)) candidates))"

text \<open>
  The ranking in the words of the specification sorts the candidates, in the order
  of their insertion into the candidate set, by a stable sort.
  \<open>insertion_order\<close> is that order: the calls of \<open>insert\<close> that
  \<open>generateSuggestions\<close> makes, each candidate at its first insertion.
\<close>

definition first_occurrences :: "'a list \<Rightarrow> 'a list" where
  "first_occurrences xs = rev (remdups (rev xs))"

definition insertion_order :: "engine \<Rightarrow> dictionary \<Rightarrow> string \<Rightarrow> string list" where
  "insertion_order eng d word =
     first_occurrences
       (filter (containsWord d)
          (generateDeletionCandidates word @ generateInsertionCandidates word @
           generateSubstitutionCandidates word @ generateTranspositionCandidates word @
           generateSplitCandidates d word)
        @ generatePhoneticSuggestions eng word @ generatePrefixSuggestions eng word)"

text \<open>
  No word stored in the dictionary contains a space: no word of the exact set, of a
  phonetic bucket, or of the trie.
\<close>

definition no_space_stored :: "dictionary \<Rightarrow> bool" where
  "no_space_stored d =
     ((\<forall>w\<in>set (word_set d). CHR '' '' \<notin> set w) \<and>
      (\<forall>code ws. map_of (phonetic_map d) code = Some ws \<longrightarrow> (\<forall>w\<in>set ws. CHR '' '' \<notin> set w)) \<and>
      (\<forall>w. terminal (trie_root d) w \<longrightarrow> CHR '' '' \<notin> set w))"

definition engine_te :: engine where
  "engine_te = SuggestionEngine (Some lexicon_te)"

definition engine_at_it :: engine where
  "engine_at_it = SuggestionEngine (Some lexicon_at_it)"

definition engine_in_to :: engine where
  "engine_in_to = SuggestionEngine (Some lexicon_in_to)"


text \<open>The state after \<open>addWord("at", 1)\<close> and \<open>removeWord("at")\<close>.\<close>

definition lexicon_removed :: dictionary where
  "lexicon_removed = snd (removeWord (addWord Dictionary ''at'' 1) ''at'')"


section \<open>Dictionary files\<close>

text \<open>The exceptions that \<open>std::stoul\<close> throws.\<close>

datatype load_error = invalid_argument | out_of_range

text \<open>
  \<open>std::stoul(str)\<close>, in base 10, as \<open>strtoul\<close> reads it: leading white space is
  skipped, a sign is optional, and the digits that follow are the value; what
  comes after the digits is ignored. With no digit it throws
  \<open>std::invalid_argument\<close>, and when the value does not fit an \<open>unsigned long\<close>,
  of 64 bits here, \<open>std::out_of_range\<close>. A minus sign negates the value in
  \<open>unsigned long\<close>. The value is an \<open>int\<close> while the digits are read.
\<close>

definition digit_value :: "char \<Rightarrow> int" where
  "digit_value c = int (of_char c) - 48"

fun parse_digits :: "string \<Rightarrow> int \<Rightarrow> int" where
  "parse_digits [] acc = acc"
| "parse_digits (c # cs) acc =
     (if isdigit c then parse_digits cs (acc * 10 + digit_value c) else acc)"

definition stoul :: "string \<Rightarrow> load_error + 64 word" where
  "stoul str =
     (let s1 = dropWhile isspace str;
          negative = (s1 \<noteq> [] \<and> hd s1 = CHR ''-'');
          s2 = (if s1 \<noteq> [] \<and> (hd s1 = CHR ''-'' \<or> hd s1 = CHR ''+'') then tl s1 else s1)
      in if s2 = [] \<or> \<not> isdigit (hd s2) then Inl invalid_argument
         else
           let n = parse_digits s2 0
           in if n > 2 ^ 64 - 1 then Inl out_of_range
              else Inr (if negative then - word_of_int n else word_of_int n))"

text \<open>
  The lines that the loop \<open>while (std::getline(file, line))\<close> sees. The first
  argument is what is left of the stream, the second the line read so far: at the
  end of the stream a line that is not empty is still delivered.
\<close>

fun getlines :: "string \<Rightarrow> string \<Rightarrow> string list" where
  "getlines [] line = (if line = [] then [] else [line])"
| "getlines (c # cs) line =
     (if c = CHR 0x0A then line # getlines cs [] else getlines cs (line @ [c]))"

text \<open>\<open>s.find(c)\<close>; \<open>None\<close> is \<open>npos\<close>.\<close>

definition find_char :: "char \<Rightarrow> string \<Rightarrow> nat option" where
  "find_char c s = (if c \<in> set s then Some (length (takeWhile (\<lambda>x. x \<noteq> c) s)) else None)"

text \<open>The body of the loop of \<open>loadFromFile\<close>, for one line.\<close>

definition load_line :: "dictionary \<Rightarrow> string \<Rightarrow> load_error + dictionary" where
  "load_line d raw =
     (let line = filter (\<lambda>c. \<not> isspace c) raw in
      if line = [] then Inr d
      else
        case find_char CHR '':'' line of
          Some colon_pos \<Rightarrow>
            (let word = take colon_pos line in
             case stoul (drop (colon_pos + 1) line) of
               Inl e \<Rightarrow> Inl e
             | Inr v \<Rightarrow> Inr (addWord d word (ucast v)))
        | None \<Rightarrow> Inr (addWord d line 1))"

fun load_lines :: "dictionary \<Rightarrow> string list \<Rightarrow> load_error + dictionary" where
  "load_lines d [] = Inr d"
| "load_lines d (l # ls) =
     (case load_line d l of Inl e \<Rightarrow> Inl e | Inr d' \<Rightarrow> load_lines d' ls)"

text \<open>
  \<open>loadFromFile\<close>. The file is \<open>None\<close> when it cannot be opened, and its contents
  otherwise. \<open>Inl\<close> is an exception that leaves the function.
\<close>

definition loadFromFile :: "string option \<Rightarrow> dictionary \<Rightarrow> load_error + bool \<times> dictionary" where
  "loadFromFile file d =
     (case file of
        None \<Rightarrow> Inr (False, d)
      | Some contents \<Rightarrow>
          (case load_lines (clear d) (getlines contents []) of
             Inl e \<Rightarrow> Inl e
           | Inr d' \<Rightarrow> Inr (True, d')))"

text \<open>\<open>operator<<\<close> for an unsigned integer: its decimal digits.\<close>

function decimal :: "int \<Rightarrow> string" where
  "decimal n =
     (if n < 10 then [char_of (48 + nat n)]
      else decimal (n div 10) @ [char_of (48 + nat (n mod 10))])"
  by pat_completeness auto
termination
  by (relation "measure nat") auto

text \<open>What \<open>saveToFile\<close> writes for one entry, without the newline.\<close>

definition entry_line :: "string \<times> 32 word \<Rightarrow> string" where
  "entry_line word_freq = fst word_freq @ '':'' @ decimal (uint (snd word_freq))"

definition file_contents :: "dictionary \<Rightarrow> string" where
  "file_contents d = concat (map (\<lambda>word_freq. entry_line word_freq @ [CHR 0x0A]) (word_frequencies d))"

text \<open>
  \<open>saveToFile\<close> returns whether the file opened; \<open>file_contents\<close> is what it writes
  then, in the iteration order of \<open>word_frequencies_\<close>.
\<close>

definition saveToFile :: "bool \<Rightarrow> dictionary \<Rightarrow> bool \<times> string option" where
  "saveToFile is_open d = (if \<not> is_open then (False, None) else (True, Some (file_contents d)))"

text \<open>The lexicon \<open>{apple:3, banana:1}\<close>.\<close>

definition lexicon_fruit :: dictionary where
  "lexicon_fruit = addWord (addWord Dictionary ''apple'' 3) ''banana'' 1"

text \<open>A decimal digit, which is no white space, colon, newline or sign.\<close>

definition plain_digit :: "char \<Rightarrow> bool" where
  "plain_digit c = (isdigit c \<and> \<not> isspace c \<and> c \<noteq> CHR '':'' \<and> c \<noteq> CHR 0x0A \<and>
     c \<noteq> CHR ''-'' \<and> c \<noteq> CHR ''+'')"

text \<open>A word without white space and without a colon.\<close>

definition plain_word :: "string \<Rightarrow> bool" where
  "plain_word w = (\<forall>c\<in>set w. \<not> isspace c \<and> c \<noteq> CHR '':'')"

text \<open>\<open>addWord\<close> for each entry of a list in turn.\<close>

definition add_entries :: "(string \<times> 32 word) list \<Rightarrow> dictionary \<Rightarrow> dictionary" where
  "add_entries es d = fold (\<lambda>e d. addWord d (fst e) (snd e)) es d"


section \<open>The text processor\<close>

subsection \<open>Regular expressions\<close>

text \<open>
  The patterns that \<open>std::regex_match\<close> is called with have no back-reference and
  no look-ahead, so a string matches as a whole exactly when it is in the language
  of the pattern. Membership is decided with derivatives. \<open>Cls p\<close> is a character
  class.
\<close>

datatype regex =
    Nothing
  | Eps
  | Cls "char \<Rightarrow> bool"
  | Seq regex regex
  | Alt regex regex
  | Star regex

fun nullable :: "regex \<Rightarrow> bool" where
  "nullable Nothing = False"
| "nullable Eps = True"
| "nullable (Cls p) = False"
| "nullable (Seq r s) = (nullable r \<and> nullable s)"
| "nullable (Alt r s) = (nullable r \<or> nullable s)"
| "nullable (Star r) = True"

fun deriv :: "char \<Rightarrow> regex \<Rightarrow> regex" where
  "deriv c Nothing = Nothing"
| "deriv c Eps = Nothing"
| "deriv c (Cls p) = (if p c then Eps else Nothing)"
| "deriv c (Seq r s) =
     (if nullable r then Alt (Seq (deriv c r) s) (deriv c s) else Seq (deriv c r) s)"
| "deriv c (Alt r s) = Alt (deriv c r) (deriv c s)"
| "deriv c (Star r) = Seq (deriv c r) (Star r)"

definition regex_match :: "string \<Rightarrow> regex \<Rightarrow> bool" where
  "regex_match text r = nullable (fold deriv text r)"

text \<open>A literal character, a literal string, \<open>r+\<close> and \<open>r?\<close>.\<close>

definition Lit :: "char \<Rightarrow> regex" where
  "Lit c = Cls (\<lambda>x. x = c)"

fun Str :: "string \<Rightarrow> regex" where
  "Str [] = Eps"
| "Str (c # cs) = Seq (Lit c) (Str cs)"

definition Plus :: "regex \<Rightarrow> regex" where
  "Plus r = Seq r (Star r)"

definition Opt :: "regex \<Rightarrow> regex" where
  "Opt r = Alt r Eps"

text \<open>
  \<open>https?://[^\s]+|www\.[^\s]+|[a-zA-Z0-9][a-zA-Z0-9-]*\.[a-zA-Z]{2,}\<close>
\<close>

definition url_regex :: regex where
  "url_regex =
     Alt (Seq (Str ''http'') (Seq (Opt (Lit CHR ''s'')) (Seq (Str ''://'') (Plus (Cls (\<lambda>c. \<not> isspace c))))))
    (Alt (Seq (Str ''www.'') (Plus (Cls (\<lambda>c. \<not> isspace c))))
         (Seq (Cls isalnum)
         (Seq (Star (Cls (\<lambda>c. isalnum c \<or> c = CHR ''-'')))
         (Seq (Lit CHR ''.'') (Seq (Cls isalpha) (Plus (Cls isalpha)))))))"

text \<open>\<open>[a-zA-Z0-9._%+-]+@[a-zA-Z0-9.-]+\.[a-zA-Z]{2,}\<close>\<close>

definition email_regex :: regex where
  "email_regex =
     Seq (Plus (Cls (\<lambda>c. isalnum c \<or> c \<in> set ''._%+-'')))
    (Seq (Lit CHR ''@'')
    (Seq (Plus (Cls (\<lambda>c. isalnum c \<or> c \<in> set ''.-'')))
    (Seq (Lit CHR ''.'') (Seq (Cls isalpha) (Plus (Cls isalpha))))))"

text \<open>\<open>\d+(?:\.\d+)?\<close>\<close>

definition number_regex :: regex where
  "number_regex = Seq (Plus (Cls isdigit)) (Opt (Seq (Lit CHR ''.'') (Plus (Cls isdigit))))"

subsection \<open>Word matches\<close>

text \<open>
  The word pattern is \<open>[a-zA-Z]+(?:'[a-zA-Z]+)?\<close>. \<open>match_word_at s\<close> is the length
  of its match at the start of \<open>s\<close>, and zero when there is none: the letters are
  taken greedily, and the optional group is taken when an apostrophe and a letter
  follow, again with all its letters. The match cannot fail after the first
  letter, so nothing is given back.
\<close>

definition match_word_at :: "string \<Rightarrow> nat" where
  "match_word_at s =
     (let letters = length (takeWhile isalpha s);
          rest = drop letters s
      in if letters = 0 then 0
         else if 2 \<le> length rest \<and> hd rest = CHR 0x27 \<and> isalpha (rest ! 1)
              then letters + 1 + length (takeWhile isalpha (tl rest))
              else letters)"

text \<open>
  The matches that \<open>std::sregex_iterator\<close> enumerates, each with
  \<open>match.position()\<close>: the search goes on where the last match ended.
\<close>

function word_matches :: "string \<Rightarrow> nat \<Rightarrow> (string \<times> nat) list" where
  "word_matches text position =
     (if length text \<le> position then []
      else
        let n = match_word_at (drop position text)
        in if n = 0 then word_matches text (position + 1)
           else (take n (drop position text), position) # word_matches text (position + n))"
  by pat_completeness auto
termination
  by (relation "measure (\<lambda>(text, position). length text - position)") auto

subsection \<open>Tokens\<close>

text \<open>\<open>class TextProcessor\<close>: the four flags; the patterns are the constants above.\<close>

record text_processor =
  ignore_urls :: bool
  ignore_emails :: bool
  ignore_numbers :: bool
  case_sensitive :: bool

definition TextProcessor :: text_processor where
  "TextProcessor = \<lparr>ignore_urls = True, ignore_emails = True, ignore_numbers = True,
                     case_sensitive = False\<rparr>"

definition isUrl :: "string \<Rightarrow> bool" where
  "isUrl text = regex_match text url_regex"

definition isEmail :: "string \<Rightarrow> bool" where
  "isEmail text = regex_match text email_regex"

definition isNumber :: "string \<Rightarrow> bool" where
  "isNumber text = regex_match text number_regex"

definition isAlphabetic :: "string \<Rightarrow> bool" where
  "isAlphabetic word = (word \<noteq> [] \<and> list_all (\<lambda>c. isalpha c \<or> c = CHR 0x27) word)"

definition removePunctuation :: "string \<Rightarrow> string" where
  "removePunctuation word = filter (\<lambda>c. isalnum c \<or> c = CHR 0x27) word"

definition toLowerCase :: "string \<Rightarrow> string" where
  "toLowerCase word = map tolower word"

definition normalizeWord :: "text_processor \<Rightarrow> string \<Rightarrow> string" where
  "normalizeWord tp word =
     (let normalized = removePunctuation word
      in if \<not> case_sensitive tp then toLowerCase normalized else normalized)"

definition shouldIgnoreWord :: "text_processor \<Rightarrow> string \<Rightarrow> bool" where
  "shouldIgnoreWord tp word =
     (if word = [] then True
      else if ignore_urls tp \<and> isUrl word then True
      else if ignore_emails tp \<and> isEmail word then True
      else if ignore_numbers tp \<and> isNumber word then True
      else if length word \<le> 2 then True
      else if \<not> isAlphabetic word then True
      else False)"

text \<open>\<open>text.find(c, pos)\<close>; \<open>None\<close> is \<open>npos\<close>.\<close>

definition find_from :: "char \<Rightarrow> string \<Rightarrow> nat \<Rightarrow> nat option" where
  "find_from c text pos =
     (case find_char c (drop pos text) of None \<Rightarrow> None | Some k \<Rightarrow> Some (pos + k))"

text \<open>
  The \<open>while\<close> loop of \<open>extractWordsWithLines\<close> that moves \<open>line_number\<close> and
  \<open>line_start\<close> forward to the line of a match; it returns the two.
\<close>

function advance_line :: "string \<Rightarrow> nat \<Rightarrow> nat \<Rightarrow> nat \<Rightarrow> nat \<times> nat" where
  "advance_line text position line_number line_start =
     (if line_start \<le> position then
        (case find_from CHR 0x0A text line_start of
           None \<Rightarrow> (line_number, line_start)
         | Some next_newline \<Rightarrow>
             if next_newline > position then (line_number, line_start)
             else advance_line text position (line_number + 1) (next_newline + 1))
      else (line_number, line_start))"
  by pat_completeness auto
termination
  by (relation "measure (\<lambda>(text, position, line_number, line_start). position + 1 - line_start)")
     (auto simp: find_from_def split: option.splits)

text \<open>
  The \<open>for\<close> loop over the matches. \<open>column\<close> is \<open>size_t\<close> arithmetic, which the
  natural numbers follow as long as \<open>line_start \<le> position\<close>; that it is so at
  every match is part of the theorem below.
\<close>

fun extract_loop ::
  "text_processor \<Rightarrow> string \<Rightarrow> (string \<times> nat) list \<Rightarrow> nat \<Rightarrow> nat \<Rightarrow> (string \<times> nat \<times> nat) list" where
  "extract_loop tp text [] line_number line_start = []"
| "extract_loop tp text (m # ms) line_number line_start =
     (let word = fst m;
          position = snd m;
          (line_number', line_start') = advance_line text position line_number line_start;
          column = position - line_start' + 1;
          rest = extract_loop tp text ms line_number' line_start'
      in if \<not> shouldIgnoreWord tp word
         then (normalizeWord tp word, line_number', column) # rest
         else rest)"

definition extractWordsWithLines :: "text_processor \<Rightarrow> string \<Rightarrow> (string \<times> nat \<times> nat) list" where
  "extractWordsWithLines tp text = extract_loop tp text (word_matches text 0) 1 0"

definition extractWords :: "text_processor \<Rightarrow> string \<Rightarrow> (string \<times> nat) list" where
  "extractWords tp text =
     map (\<lambda>m. (normalizeWord tp (fst m), snd m))
       (filter (\<lambda>m. \<not> shouldIgnoreWord tp (fst m)) (word_matches text 0))"

subsection \<open>Line and column of a position\<close>

text \<open>
  The positions below \<open>b\<close> at which the text has a newline, in ascending order.
\<close>

definition newlines_before :: "string \<Rightarrow> nat \<Rightarrow> nat list" where
  "newlines_before str b = filter (\<lambda>i. i < length str \<and> str ! i = CHR 0x0A) [0..<b]"

text \<open>
  The line number and the line start for a position \<open>p\<close>, in the words of the
  specification: \<open>line_start\<close> is advanced past every newline at a position
  \<open>\<le> p\<close>, and \<open>line_number\<close>, which starts at 1, counts them.
\<close>

definition line_number_at :: "string \<Rightarrow> nat \<Rightarrow> nat" where
  "line_number_at str p = 1 + length (newlines_before str (p + 1))"

definition line_start_at :: "string \<Rightarrow> nat \<Rightarrow> nat" where
  "line_start_at str p =
     (let newlines = newlines_before str (p + 1)
      in if newlines = [] then 0 else last newlines + 1)"

text \<open>
  The invariant of the loop over the matches: \<open>line_number\<close> has counted the
  newlines below \<open>line_start\<close>, and \<open>line_start\<close> is just behind the last of them.
\<close>

definition tracked :: "string \<Rightarrow> nat \<Rightarrow> nat \<Rightarrow> bool" where
  "tracked str line_number line_start =
     (line_number = 1 + length (newlines_before str line_start) \<and>
      line_start = (if newlines_before str line_start = [] then 0
                    else last (newlines_before str line_start) + 1))"

text \<open>
  A match \<open>(word, position)\<close> found at or after \<open>q\<close>: the word is the text at its
  position, which holds a letter.
\<close>

definition located :: "string \<Rightarrow> nat \<Rightarrow> string \<times> nat \<Rightarrow> bool" where
  "located str q m =
     (q \<le> snd m \<and> snd m < length str \<and> isalpha (str ! snd m) \<and> fst m \<noteq> [] \<and>
      fst m = take (length (fst m)) (drop (snd m) str))"

text \<open>The token emitted for a match.\<close>

definition token_of :: "text_processor \<Rightarrow> string \<Rightarrow> string \<times> nat \<Rightarrow> string \<times> nat \<times> nat" where
  "token_of tp str m =
     (normalizeWord tp (fst m), line_number_at str (snd m), snd m - line_start_at str (snd m) + 1)"


section \<open>Case folding\<close>

lemma of_char_tolower_upper:
  "isupper c \<Longrightarrow> (of_char (tolower c) :: nat) = of_char c + 32"
  by (simp add: tolower_def isupper_def)

lemma tolower_idem [simp]: "tolower (tolower c) = tolower c"
proof (cases "isupper c")
  case True
  then have "\<not> isupper (tolower c)"
    using of_char_tolower_upper [OF True] by (simp add: isupper_def)
  then show ?thesis by (simp add: tolower_def)
next
  case False
  then show ?thesis by (simp add: tolower_def)
qed

lemma to_lower_idem [simp]: "to_lower (to_lower w) = to_lower w"
  by (simp add: to_lower_def)

text \<open>
  Claim C9. \<open>containsWord\<close> and \<open>getWordFrequency\<close> lowercase their argument before
  the lookup, so in every dictionary state each gives the same answer for a string
  and for its lowercase form.
\<close>

theorem lookups_case_insensitive:
  "containsWord d w = containsWord d (to_lower w) \<and>
   getWordFrequency d w = getWordFrequency d (to_lower w)"
  by (simp add: containsWord_def getWordFrequency_def)


section \<open>The phonetic code\<close>

declare pad_zeros.simps [simp del]

lemma pad_zeros_eq: "pad_zeros code = code @ replicate (4 - length code) (CHR ''0'')"
proof (induction code rule: pad_zeros.induct)
  case (1 code)
  show ?case
  proof (cases "length code < 4")
    case True
    then have "pad_zeros code = pad_zeros (code @ [CHR ''0''])" by (subst pad_zeros.simps) simp
    also have "\<dots> = (code @ [CHR ''0'']) @ replicate (4 - length (code @ [CHR ''0''])) (CHR ''0'')"
      using 1 True by simp
    also have "\<dots> = code @ replicate (4 - length code) (CHR ''0'')"
      using True by (simp add: replicate_app_Cons_same Suc_diff_Suc flip: replicate_Suc)
    finally show ?thesis .
  next
    case False
    then show ?thesis by (subst pad_zeros.simps) simp
  qed
qed

lemma phonetic_digit_range: "phonetic_digit c = Some d \<Longrightarrow> loop_digit d"
  by (auto simp: phonetic_digit_def loop_digit_def split: if_splits)

lemma loop_digit_code_digit: "loop_digit c \<Longrightarrow> code_digit c"
  by (auto simp: loop_digit_def code_digit_def)

lemma code_shape_snoc:
  "code_shape h code \<Longrightarrow> length code < 4 \<Longrightarrow> loop_digit d \<Longrightarrow> code_shape h (code @ [d])"
  unfolding code_shape_def by auto

lemma phonetic_loop_shape:
  "code_shape h code \<Longrightarrow> code_shape h (phonetic_loop cs code)"
proof (induction cs arbitrary: code)
  case Nil
  then show ?case by simp
next
  case (Cons c cs)
  show ?case
  proof (cases "phonetic_digit (tolower c)")
    case None
    with Cons show ?thesis by simp
  next
    case (Some digit)
    have dg: "loop_digit digit" using Some by (rule phonetic_digit_range)
    show ?thesis
    proof (cases "length code < 4 \<and> (code = [] \<or> last code \<noteq> digit)")
      case True
      then have "code_shape h (code @ [digit])"
        using code_shape_snoc [OF Cons.prems _ dg] by simp
      then have "code_shape h (phonetic_loop cs (code @ [digit]))" by (rule Cons.IH)
      with True Some show ?thesis by simp
    next
      case False
      with Some Cons show ?thesis by auto
    qed
  qed
qed

lemma toupper_alpha: "isalpha c \<Longrightarrow> isupper (toupper c)"
  by (auto simp: isalpha_def isupper_def islower_def toupper_def)

lemmas char_eval = isupper_def islower_def isalpha_def isdigit_def isalnum_def isspace_def
  tolower_def toupper_def to_lower_def

lemmas phonetic_eval = generatePhoneticCode_def phonetic_digit_def pad_zeros_eq

text \<open>
  Claim C6, for the words it holds for. \<open>generatePhoneticCode\<close> returns the empty
  string for the empty word, and the first character of a code is the uppercase
  form of the word's first character, whatever that character is. For a word that
  is not empty and starts with an ASCII letter the code has exactly four
  characters: an uppercase letter, then three characters from \<open>'0'\<close> to \<open>'6'\<close>.
  These three are the digits \<open>ds\<close> that the loop has appended, at most three and
  each from \<open>'1'\<close> to \<open>'6'\<close>, followed by as many \<open>'0'\<close> as are missing: the code
  is padded on the right with \<open>'0'\<close> and with nothing else.
\<close>

theorem phonetic_code_shape:
  assumes "w \<noteq> []" and "isalpha (hd w)"
  shows "length (generatePhoneticCode w) = 4 \<and>
         hd (generatePhoneticCode w) = toupper (hd w) \<and>
         isupper (hd (generatePhoneticCode w)) \<and>
         (\<forall>c\<in>set (tl (generatePhoneticCode w)). code_digit c) \<and>
         (\<exists>ds. phonetic_loop (tl w) [toupper (hd w)] = toupper (hd w) # ds \<and>
               length ds \<le> 3 \<and> (\<forall>c\<in>set ds. loop_digit c) \<and>
               generatePhoneticCode w =
                 toupper (hd w) # ds @ replicate (3 - length ds) (CHR ''0''))"
proof -
  from assms(1) obtain c cs where w: "w = c # cs" by (cases w) auto
  have "code_shape (toupper c) [toupper c]" by (simp add: code_shape_def)
  then have "code_shape (toupper c) (phonetic_loop cs [toupper c])" by (rule phonetic_loop_shape)
  then obtain ds where ds: "phonetic_loop cs [toupper c] = toupper c # ds" "length ds \<le> 3"
    "\<forall>c\<in>set ds. loop_digit c" unfolding code_shape_def by blast
  have code: "generatePhoneticCode w = toupper c # ds @ replicate (3 - length ds) (CHR ''0'')"
    by (simp add: generatePhoneticCode_def w pad_zeros_eq ds Suc_diff_le)
  have zero: "code_digit (CHR ''0'')" by (simp add: code_digit_def)
  from ds(3) have dg: "\<forall>c\<in>set ds. code_digit c" by (blast intro: loop_digit_code_digit)
  have pad: "\<exists>ds. phonetic_loop (tl w) [toupper (hd w)] = toupper (hd w) # ds \<and>
               length ds \<le> 3 \<and> (\<forall>c\<in>set ds. loop_digit c) \<and>
               generatePhoneticCode w =
                 toupper (hd w) # ds @ replicate (3 - length ds) (CHR ''0'')"
    using ds code by (intro exI [of _ ds]) (simp add: w)
  have "length (generatePhoneticCode w) = 4 \<and>
         hd (generatePhoneticCode w) = toupper (hd w) \<and>
         isupper (hd (generatePhoneticCode w)) \<and>
         (\<forall>c\<in>set (tl (generatePhoneticCode w)). code_digit c)"
    using ds(2) dg zero assms(2) unfolding code by (auto simp: w toupper_alpha)
  with pad show ?thesis by blast
qed

text \<open>
  At \<open>Robert\<close> the loop appends three digits and nothing is padded; at \<open>cat\<close> it
  appends one digit and two \<open>'0'\<close> follow.
\<close>

theorem phonetic_code_shape_witness:
  "generatePhoneticCode ''Robert'' = ''R163'' \<and> isalpha (hd ''Robert'') \<and>
   length (generatePhoneticCode ''Robert'') = 4 \<and>
   isupper (hd (generatePhoneticCode ''Robert'')) \<and>
   list_all code_digit (tl (generatePhoneticCode ''Robert'')) \<and>
   isalpha (hd ''cat'') \<and>
   phonetic_loop (tl ''cat'') [toupper (hd ''cat'')] = ''C3'' \<and>
   list_all loop_digit ''3'' \<and>
   generatePhoneticCode ''cat'' = ''C3'' @ replicate (3 - length ''3'') (CHR ''0'') \<and>
   generatePhoneticCode ''cat'' = ''C300''"
proof -
  have e: "generatePhoneticCode ''Robert'' = ''R163''"
    by (simp add: phonetic_eval char_eval)
  have a: "isalpha (hd ''Robert'')" by (simp add: char_eval)
  have n: "''Robert'' \<noteq> []" by simp
  from phonetic_code_shape [OF n a]
  have r1: "length (generatePhoneticCode ''Robert'') = 4"
    and r2: "isupper (hd (generatePhoneticCode ''Robert''))"
    and r3: "\<forall>c\<in>set (tl (generatePhoneticCode ''Robert'')). code_digit c"
    by blast+
  from r3 have r4: "list_all code_digit (tl (generatePhoneticCode ''Robert''))"
    by (simp only: list_all_iff)
  note r = r1 r2 r4
  have b: "isalpha (hd ''cat'')" by (simp add: char_eval)
  have l: "phonetic_loop (tl ''cat'') [toupper (hd ''cat'')] = ''C3''" by code_simp
  have n': "''cat'' \<noteq> []" by simp
  from phonetic_code_shape [OF n' b] obtain ds
    where ds: "phonetic_loop (tl ''cat'') [toupper (hd ''cat'')] = toupper (hd ''cat'') # ds"
      "\<forall>c\<in>set ds. loop_digit c"
      "generatePhoneticCode ''cat'' = toupper (hd ''cat'') # ds @ replicate (3 - length ds) (CHR ''0'')"
    by blast
  have u: "toupper (hd ''cat'') = CHR ''C''" by code_simp
  from ds(1) [symmetric] l have "toupper (hd ''cat'') # ds = ''C3''" by (rule trans)
  then have d3: "ds = ''3''" by simp
  from ds(2,3) have c: "list_all loop_digit ''3''"
    "generatePhoneticCode ''cat'' = ''C3'' @ replicate (3 - length ''3'') (CHR ''0'')"
    unfolding d3 u by (simp_all add: list_all_iff)
  from c(2) have "generatePhoneticCode ''cat'' = ''C300''" by (simp add: numeral_2_eq_2)
  with e a r b l c show ?thesis by blast
qed

text \<open>
  The claim as stated fails at the empty string, whose code is empty, and at a
  word that starts with a digit, whose code starts with that digit.
\<close>

theorem phonetic_code_counterexample:
  "generatePhoneticCode [] = [] \<and> length (generatePhoneticCode []) \<noteq> 4 \<and>
   generatePhoneticCode ''1st'' = ''1230'' \<and> \<not> isupper (hd (generatePhoneticCode ''1st''))"
  by (simp add: phonetic_eval char_eval)


section \<open>Adding a word that is already present\<close>

lemmas dict_eval = Dictionary_def addWord_def uset_insert_def umap_assign_def bucket_def
  empty_node_def

text \<open>
  Claim C2 at a concrete input. \<open>addWord\<close> appends the word to the bucket of its
  phonetic code whether or not the word is new: after \<open>addWord("cat", 1)\<close> and
  \<open>addWord("cat", 2)\<close> the size is 1 and the frequency is 2, and the bucket of
  \<open>C300\<close> holds \<open>cat\<close> twice.
\<close>

theorem addWord_twice_duplicates_bucket:
  "generatePhoneticCode ''cat'' = ''C300'' \<and>
   bucket (phonetic_map (addWord Dictionary ''cat'' 1)) ''C300'' = [''cat''] \<and>
   bucket (phonetic_map (addWord (addWord Dictionary ''cat'' 1) ''cat'' 2)) ''C300''
     = [''cat'', ''cat''] \<and>
   size_dict (addWord Dictionary ''cat'' 1) = 1 \<and>
   size_dict (addWord (addWord Dictionary ''cat'' 1) ''cat'' 2) = 1 \<and>
   getWordFrequency (addWord (addWord Dictionary ''cat'' 1) ''cat'' 2) ''cat'' = 2"
  by code_simp



section \<open>Words with a prefix\<close>

lemma set_sort_insert [simp]: "set (sort_insert cmp x ys) = insert x (set ys)"
  by (induction ys) auto

lemma length_sort_insert [simp]: "length (sort_insert cmp x ys) = Suc (length ys)"
  by (induction ys) auto

lemma set_fold_sort_insert: "set (fold (sort_insert cmp) xs acc) = set xs \<union> set acc"
  by (induction xs arbitrary: acc) auto

lemma length_fold_sort_insert: "length (fold (sort_insert cmp) xs acc) = length xs + length acc"
  by (induction xs arbitrary: acc) auto

lemma set_std_sort [simp]: "set (std_sort cmp xs) = set xs"
  by (simp add: std_sort_def set_fold_sort_insert)

lemma length_std_sort [simp]: "length (std_sort cmp xs) = length xs"
  by (simp add: std_sort_def length_fold_sort_insert)

lemma sorted_sort_insert:
  fixes k :: "'a \<Rightarrow> 'b::linorder"
  assumes "sorted_wrt (\<lambda>a b. k a \<ge> k b) ys"
  shows "sorted_wrt (\<lambda>a b. k a \<ge> k b) (sort_insert (\<lambda>a b. k a > k b) x ys)"
  using assms by (induction ys) (auto simp: less_imp_le not_less dest: order_trans)

lemma sorted_fold_sort_insert:
  fixes k :: "'a \<Rightarrow> 'b::linorder"
  assumes "sorted_wrt (\<lambda>a b. k a \<ge> k b) acc"
  shows "sorted_wrt (\<lambda>a b. k a \<ge> k b) (fold (sort_insert (\<lambda>a b. k a > k b)) xs acc)"
  using assms by (induction xs arbitrary: acc) (auto intro: sorted_sort_insert)

lemma sorted_std_sort:
  fixes k :: "'a \<Rightarrow> 'b::linorder"
  shows "sorted_wrt (\<lambda>a b. k a \<ge> k b) (std_sort (\<lambda>a b. k a > k b) xs)"
  by (simp add: std_sort_def sorted_fold_sort_insert)

lemma collect_length:
  "length (collectWordsWithPrefix t p rs m) \<le> max m (length rs)"
  "length (collect_children cs p rs m) \<le> max m (length rs)"
proof (induction t p rs m and cs p rs m rule: collectWordsWithPrefix_collect_children.induct)
  case (1 b f cs prefix results max_results)
  then show ?case by (auto split: if_splits)
next
  case (2 prefix results max_results)
  then show ?case by simp
next
  case (3 child cs prefix results max_results)
  then show ?case by (simp add: max_def split: if_splits)
qed

lemma collect_terminal:
  "w \<in> set (collectWordsWithPrefix t p rs m) \<Longrightarrow> w \<in> set rs \<or> (\<exists>s. w = p @ s \<and> terminal t s)"
  "w \<in> set (collect_children cs p rs m) \<Longrightarrow>
     w \<in> set rs \<or> (\<exists>c t' s. (c, t') \<in> set cs \<and> w = p @ c # s \<and> terminal t' s)"
proof (induction t p rs m and cs p rs m arbitrary: w and w
       rule: collectWordsWithPrefix_collect_children.induct)
  case (1 b f cs prefix results max_results)
  show ?case
  proof (cases "length results \<ge> max_results")
    case True
    with 1 show ?thesis by simp
  next
    case False
    with "1.prems" have "w \<in> set (collect_children cs prefix (if b then results @ [prefix] else results) max_results)"
      by simp
    from "1.IH" [OF _ this] False
    have "w \<in> set (if b then results @ [prefix] else results) \<or>
          (\<exists>c t' s. (c, t') \<in> set cs \<and> w = prefix @ c # s \<and> terminal t' s)" by simp
    then show ?thesis
    proof
      assume "w \<in> set (if b then results @ [prefix] else results)"
      moreover have "b \<Longrightarrow> terminal (TrieNode b f cs) []" by (rule terminal.here) simp
      ultimately show ?thesis by (auto split: if_splits)
    next
      assume "\<exists>c t' s. (c, t') \<in> set cs \<and> w = prefix @ c # s \<and> terminal t' s"
      then obtain c t' s where c: "(c, t') \<in> set cs" "w = prefix @ c # s" "terminal t' s"
        by blast
      from c(1) have "(c, t') \<in> set (children (TrieNode b f cs))" by simp
      from terminal.below [OF this c(3)] c(2) show ?thesis by blast
    qed
  qed
next
  case (2 prefix results max_results)
  then show ?case by simp
next
  case (3 child cs prefix results max_results)
  from "3.prems" have "w \<in> set (collect_children cs prefix
       (collectWordsWithPrefix (snd child) (prefix @ [fst child]) results max_results) max_results)"
    by simp
  from "3.IH"(2) [OF this]
  show ?case
  proof
    assume "w \<in> set (collectWordsWithPrefix (snd child) (prefix @ [fst child]) results max_results)"
    from "3.IH"(1) [OF this] show ?thesis
      by (cases child) auto
  next
    assume "\<exists>c t' s. (c, t') \<in> set cs \<and> w = prefix @ c # s \<and> terminal t' s"
    then show ?thesis by auto
  qed
qed

lemma descend_terminal:
  "descend t q = Some n \<Longrightarrow> terminal n s \<Longrightarrow> terminal t (q @ s)"
proof (induction q arbitrary: t)
  case Nil
  then show ?case by simp
next
  case (Cons c q)
  then obtain t' where t': "map_of (children t) c = Some t'" "descend t' q = Some n"
    by (auto split: option.splits)
  from Cons.IH [OF t'(2) Cons.prems(2)] have "terminal t' (q @ s)" .
  moreover from t'(1) have "(c, t') \<in> set (children t)" by (rule map_of_SomeD)
  ultimately show ?case by (auto intro: terminal.below)
qed

lemma getWordsWithPrefix_terminal:
  assumes "w \<in> set (getWordsWithPrefix d p m)"
  shows "starts_with w (to_lower p) \<and> terminal (trie_root d) w"
proof -
  from assms obtain n where n: "descend (trie_root d) (to_lower p) = Some n"
    and w: "w \<in> set (collectWordsWithPrefix n (to_lower p) [] m)"
    by (cases "descend (trie_root d) (to_lower p)") (auto simp: getWordsWithPrefix_def Let_def)
  from collect_terminal(1) [OF w] obtain s where s: "w = to_lower p @ s" "terminal n s" by auto
  from descend_terminal [OF n s(2)] s(1) show ?thesis by (simp add: starts_with_def)
qed

lemma getWordsWithPrefix_length: "length (getWordsWithPrefix d p m) \<le> m"
  using collect_length(1) [of _ "to_lower p" "[]" m]
  by (auto simp: getWordsWithPrefix_def Let_def split: option.splits)

lemma getWordsWithPrefix_sorted:
  "sorted_wrt (\<lambda>a b. getWordFrequency d a \<ge> getWordFrequency d b) (getWordsWithPrefix d p m)"
  by (auto simp: getWordsWithPrefix_def Let_def sorted_std_sort split: option.splits)

lemma map_of_umap_replace:
  "map_of m k \<noteq> None \<Longrightarrow> map_of (umap_replace k v m) = (map_of m)(k \<mapsto> v)"
  by (induction m) (auto simp: fun_eq_iff)

lemma map_of_umap_assign [simp]: "map_of (umap_assign k v m) = (map_of m)(k \<mapsto> v)"
  by (auto simp: umap_assign_def map_of_umap_replace split: option.splits)

lemma keys_umap_replace [simp]: "map fst (umap_replace k v m) = map fst m"
  by (induction m) auto

lemma keys_umap_assign:
  "map fst (umap_assign k v m) = (if map_of m k = None then k # map fst m else map fst m)"
  by (auto simp: umap_assign_def split: option.splits)

lemma set_umap_replace:
  "e \<in> set (umap_replace k v m) \<Longrightarrow> e = (k, v) \<or> e \<in> set m"
  by (induction m) (auto split: if_splits)

lemma map_of_umap_erase [simp]: "map_of (umap_erase k m) = (map_of m)(k := None)"
  by (induction m) (auto simp: umap_erase_def fun_eq_iff)

lemma keys_umap_erase: "map fst (umap_erase k m) = removeAll k (map fst m)"
  by (induction m) (auto simp: umap_erase_def)

lemma set_uset_insert [simp]: "set (uset_insert x xs) = insert x (set xs)"
  by (auto simp: uset_insert_def)

lemma distinct_uset_insert [simp]: "distinct xs \<Longrightarrow> distinct (uset_insert x xs)"
  by (auto simp: uset_insert_def)

lemma no_terminal_empty_node [simp]: "\<not> terminal empty_node w"
proof
  assume "terminal empty_node w"
  then show False by (cases rule: terminal.cases) (simp_all add: empty_node_def)
qed

lemma terminal_insertIntoTrie:
  "terminal (insertIntoTrie t w fr) v \<Longrightarrow> v = w \<or> terminal t v"
proof (induction w arbitrary: t v)
  case Nil
  obtain b f cs where t: "t = TrieNode b f cs" by (cases t)
  from Nil have "terminal (TrieNode True fr cs) v" by (simp add: t)
  then show ?case
  proof (cases rule: terminal.cases)
    case here
    then show ?thesis by simp
  next
    case (below c' t' w')
    then have "(c', t') \<in> set (children t)" by (simp add: t)
    from terminal.below [OF this below(3)] below(1) show ?thesis by simp
  qed
next
  case (Cons c w)
  obtain b f cs where t: "t = TrieNode b f cs" by (cases t)
  show ?case
  proof (cases "map_of cs c")
    case None
    with Cons.prems have "terminal (TrieNode b f ((c, insertIntoTrie empty_node w fr) # cs)) v"
      by (simp add: t)
    then show ?thesis
    proof (cases rule: terminal.cases)
      case here
      then show ?thesis by (auto simp: t intro: terminal.here)
    next
      case (below c' t' w')
      then have "(c', t') = (c, insertIntoTrie empty_node w fr) \<or> (c', t') \<in> set cs" by auto
      then show ?thesis
      proof
        assume "(c', t') = (c, insertIntoTrie empty_node w fr)"
        with below Cons.IH [of empty_node w'] show ?thesis by auto
      next
        assume "(c', t') \<in> set cs"
        then have "(c', t') \<in> set (children t)" by (simp add: t)
        from terminal.below [OF this below(3)] below(1) show ?thesis by simp
      qed
    qed
  next
    case (Some t0)
    with Cons.prems have "terminal (TrieNode b f (umap_replace c (insertIntoTrie t0 w fr) cs)) v"
      by (simp add: t)
    then show ?thesis
    proof (cases rule: terminal.cases)
      case here
      then show ?thesis by (auto simp: t intro: terminal.here)
    next
      case (below c' t' w')
      then have "(c', t') = (c, insertIntoTrie t0 w fr) \<or> (c', t') \<in> set cs"
        using set_umap_replace [of "(c', t')" c "insertIntoTrie t0 w fr" cs] by auto
      then show ?thesis
      proof
        assume eq: "(c', t') = (c, insertIntoTrie t0 w fr)"
        with below Cons.IH [of t0 w'] have "w' = w \<or> terminal t0 w'" by auto
        moreover from Some have "(c, t0) \<in> set (children t)" by (auto simp: t dest: map_of_SomeD)
        ultimately show ?thesis using below(1) eq by (auto intro: terminal.below)
      next
        assume "(c', t') \<in> set cs"
        then have "(c', t') \<in> set (children t)" by (simp add: t)
        from terminal.below [OF this below(3)] below(1) show ?thesis by simp
      qed
    qed
  qed
qed

lemma addWord_words_lowercase: "words_lowercase d \<Longrightarrow> words_lowercase (addWord d w f)"
  by (auto simp: words_lowercase_def addWord_def Let_def to_lower_def)

lemma addWord_trie_agrees: "trie_agrees d \<Longrightarrow> trie_agrees (addWord d w f)"
  by (auto simp: trie_agrees_def addWord_def Let_def dest: terminal_insertIntoTrie)

lemma addWord_buckets_agree:
  assumes "buckets_agree d"
  shows "buckets_agree (addWord d w f)"
proof (cases "w = []")
  case True
  with assms show ?thesis by (simp add: addWord_def)
next
  case False
  let ?nw = "to_lower w"
  let ?code = "generatePhoneticCode ?nw"
  have old: "set (bucket (phonetic_map d) ?code) \<subseteq> set (word_set d)"
  proof (cases "map_of (phonetic_map d) ?code")
    case None
    then show ?thesis by (simp add: bucket_def)
  next
    case (Some ws)
    with assms have "set ws \<subseteq> set (word_set d)" unfolding buckets_agree_def by blast
    with Some show ?thesis by (simp add: bucket_def)
  qed
  show ?thesis
    unfolding buckets_agree_def
  proof (intro allI impI)
    fix code ws
    assume "map_of (phonetic_map (addWord d w f)) code = Some ws"
    with False have ws: "((map_of (phonetic_map d))(?code \<mapsto> bucket (phonetic_map d) ?code @ [?nw])) code = Some ws"
      by (simp add: addWord_def Let_def)
    have ws': "word_set (addWord d w f) = uset_insert ?nw (word_set d)"
      using False by (simp add: addWord_def Let_def)
    show "set ws \<subseteq> set (word_set (addWord d w f))"
    proof (cases "code = ?code")
      case True
      with ws have "ws = bucket (phonetic_map d) ?code @ [?nw]" by simp
      with old show ?thesis by (auto simp: ws')
    next
      case False
      with ws have "map_of (phonetic_map d) code = Some ws" by simp
      with assms have "set ws \<subseteq> set (word_set d)" by (simp add: buckets_agree_def)
      then show ?thesis by (auto simp: ws')
    qed
  qed
qed

lemma addWord_frequencies_agree:
  assumes a: "frequencies_agree d"
  shows "frequencies_agree (addWord d w f)"
proof (cases "w = []")
  case True
  with a show ?thesis by (simp add: addWord_def)
next
  case False
  have k: "map fst (word_frequencies (addWord d w f)) =
      (if map_of (word_frequencies d) (to_lower w) = None then to_lower w # map fst (word_frequencies d)
       else map fst (word_frequencies d))"
    using False by (simp add: addWord_def Let_def keys_umap_assign)
  have s: "set (word_set (addWord d w f)) = insert (to_lower w) (set (word_set d))"
    using False by (simp add: addWord_def Let_def)
  show ?thesis
  proof (cases "map_of (word_frequencies d) (to_lower w)")
    case None
    then have "to_lower w \<notin> set (map fst (word_frequencies d))"
      by (simp add: map_of_eq_None_iff)
    with a None show ?thesis unfolding frequencies_agree_def k s by simp
  next
    case (Some y)
    then have "to_lower w \<in> set (map fst (word_frequencies d))"
      by (metis map_of_eq_None_iff option.distinct(1) set_map)
    with a Some show ?thesis unfolding frequencies_agree_def k s by auto
  qed
qed

lemma removeWord_words_lowercase: "words_lowercase d \<Longrightarrow> words_lowercase (snd (removeWord d w))"
  by (auto simp: words_lowercase_def removeWord_def Let_def)

lemma removeWord_frequencies_agree:
  assumes a: "frequencies_agree d"
  shows "frequencies_agree (snd (removeWord d w))"
proof (cases "to_lower w \<in> set (word_set d)")
  case False
  with a show ?thesis by (simp add: removeWord_def Let_def)
next
  case True
  have k: "map fst (word_frequencies (snd (removeWord d w))) =
      removeAll (to_lower w) (map fst (word_frequencies d))"
    using True by (simp add: removeWord_def Let_def keys_umap_erase)
  have s: "word_set (snd (removeWord d w)) = removeAll (to_lower w) (word_set d)"
    using True by (simp add: removeWord_def Let_def)
  from a show ?thesis unfolding frequencies_agree_def k s
    by (simp add: distinct_removeAll)
qed

lemma fresh_invariants:
  "words_lowercase Dictionary" "trie_agrees Dictionary" "buckets_agree Dictionary"
  "frequencies_agree Dictionary"
  by (simp_all add: words_lowercase_def trie_agrees_def buckets_agree_def frequencies_agree_def
      Dictionary_def)

lemma clear_invariants:
  "words_lowercase (clear d)" "trie_agrees (clear d)" "buckets_agree (clear d)"
  "frequencies_agree (clear d)"
  by (simp_all add: words_lowercase_def trie_agrees_def buckets_agree_def frequencies_agree_def
      clear_def)

lemma add_only_invariants:
  "add_only d \<Longrightarrow> words_lowercase d \<and> trie_agrees d \<and> buckets_agree d \<and> frequencies_agree d"
  by (induction rule: add_only.induct)
     (auto intro: fresh_invariants clear_invariants addWord_words_lowercase addWord_trie_agrees
        addWord_buckets_agree addWord_frequencies_agree)

lemma reachable_invariants:
  "reachable d \<Longrightarrow> words_lowercase d \<and> frequencies_agree d"
  by (induction rule: reachable.induct)
     (auto intro: fresh_invariants clear_invariants addWord_words_lowercase
        addWord_frequencies_agree removeWord_words_lowercase removeWord_frequencies_agree)

lemma add_only_reachable: "add_only d \<Longrightarrow> reachable d"
  by (induction rule: add_only.induct) (auto intro: reachable.intros)

lemma getWordsWithPrefix_contained:
  assumes "add_only d" and "w \<in> set (getWordsWithPrefix d p m)"
  shows "containsWord d w"
proof -
  from add_only_invariants [OF assms(1)] have inv: "words_lowercase d" "trie_agrees d" by auto
  from getWordsWithPrefix_terminal [OF assms(2)] have "terminal (trie_root d) w" by simp
  with inv(2) have "w \<in> set (word_set d)" by (simp add: trie_agrees_def)
  moreover from this inv(1) have "to_lower w = w" by (simp add: words_lowercase_def)
  ultimately show ?thesis by (simp add: containsWord_def)
qed

text \<open>
  Claim C1, as the code has it. In every dictionary state, whatever the order of
  its containers and whatever calls led to it, every word that
  \<open>getWordsWithPrefix\<close> returns starts with the lowercase form of the prefix, the
  result has at most \<open>max_results\<close> words, and it is in descending order of
  \<open>getWordFrequency\<close>. In a state built by \<open>addWord\<close> and \<open>clear\<close> alone every
  returned word is contained in the dictionary.
\<close>

theorem prefix_words:
  "(\<forall>w\<in>set (getWordsWithPrefix d p m). starts_with w (to_lower p)) \<and>
   length (getWordsWithPrefix d p m) \<le> m \<and>
   sorted_wrt (\<lambda>a b. getWordFrequency d a \<ge> getWordFrequency d b) (getWordsWithPrefix d p m) \<and>
   (add_only d \<longrightarrow> (\<forall>w\<in>set (getWordsWithPrefix d p m). containsWord d w))"
  using getWordsWithPrefix_terminal [of _ d p m] getWordsWithPrefix_length [of d p m]
    getWordsWithPrefix_sorted [of d p m] getWordsWithPrefix_contained [of d _ p m]
  by blast

theorem prefix_words_witness:
  "getWordsWithPrefix lexicon_te ''te'' 5 = [''ten'', ''tea'', ''test''] \<and>
   list_all (\<lambda>w. starts_with w (to_lower ''te'')) (getWordsWithPrefix lexicon_te ''te'' 5) \<and>
   length (getWordsWithPrefix lexicon_te ''te'' 5) \<le> 5 \<and>
   sorted_wrt (\<lambda>a b. getWordFrequency lexicon_te a \<ge> getWordFrequency lexicon_te b)
     (getWordsWithPrefix lexicon_te ''te'' 5) \<and>
   list_all (containsWord lexicon_te) (getWordsWithPrefix lexicon_te ''te'' 5)"
proof -
  have a: "add_only lexicon_te" unfolding lexicon_te_def by (intro add_only.intros)
  have e: "getWordsWithPrefix lexicon_te ''te'' 5 = [''ten'', ''tea'', ''test'']" by code_simp
  show ?thesis using prefix_words [of lexicon_te "''te''" 5] a e
    by (simp add: list_all_iff)
qed

text \<open>
  The claim as stated fails for a prefix with an uppercase letter, which the
  function lowercases before the descent, and on the order of words with equal
  frequency, which the comparison passed to \<open>std::sort\<close> does not look at: the
  words come out in the order in which the trie is walked.
\<close>

theorem prefix_words_counterexample:
  "getWordsWithPrefix (addWord Dictionary ''tea'' 5) ''T'' 5 = [''tea''] \<and>
   \<not> starts_with ''tea'' ''T'' \<and>
   getWordsWithPrefix (addWord (addWord Dictionary ''ta'' 1) ''tb'' 1) ''t'' 5 = [''tb'', ''ta''] \<and>
   getWordFrequency (addWord (addWord Dictionary ''ta'' 1) ''tb'' 1) ''tb'' =
   getWordFrequency (addWord (addWord Dictionary ''ta'' 1) ''tb'' 1) ''ta''"
  by code_simp

text \<open>
  \<open>removeWord\<close> erases the word from the exact set, the frequency map and its
  phonetic bucket, and leaves the trie as it is: the node of a removed word stays
  marked, and \<open>getWordsWithPrefix\<close> still returns the word.
\<close>

lemma removeWord_leaves_trie:
  "getWordsWithPrefix (snd (removeWord (addWord Dictionary ''tea'' 5) ''tea'')) ''te'' 5 = [''tea''] \<and>
   \<not> containsWord (snd (removeWord (addWord Dictionary ''tea'' 5) ''tea'')) ''tea''"
  by code_simp



section \<open>The edit distance is a metric\<close>

lemma edit_Nil2 [simp]: "edit xs [] = length xs"
  by (cases xs) auto

lemma edit_sym: "edit xs ys = edit ys xs"
  by (induction xs ys rule: edit.induct) (auto simp: min.commute min.left_commute)

lemma edit_refl [simp]: "edit xs xs = 0"
  by (induction xs) auto

lemma script_insert_all: "script [] ys (length ys)"
  by (induction ys) (auto intro: script.intros)

lemma script_delete_all: "script xs [] (length xs)"
  by (induction xs) (auto intro: script.intros)

lemma script_edit: "script xs ys (edit xs ys)"
proof (induction xs ys rule: edit.induct)
  case (1 ys)
  then show ?case by (simp add: script_insert_all)
next
  case (2 x xs)
  then show ?case using script_delete_all [of "x # xs"] by simp
next
  case (3 x xs y ys)
  show ?case
  proof (cases "x = y")
    case True
    with 3 show ?thesis by (auto intro: script.s_keep)
  next
    case False
    let ?a = "edit xs (y # ys)" and ?b = "edit (x # xs) ys" and ?c = "edit xs ys"
    have "min ?a (min ?b ?c) = ?a \<or> min ?a (min ?b ?c) = ?b \<or> min ?a (min ?b ?c) = ?c"
      by (auto simp: min_def)
    moreover have "script (x # xs) (y # ys) (Suc ?a)" using 3(2) [OF False] by (rule script.s_delete)
    moreover have "script (x # xs) (y # ys) (Suc ?b)" using 3(3) [OF False] by (rule script.s_insert)
    moreover have "script (x # xs) (y # ys) (Suc ?c)" using 3(4) [OF False] by (rule script.s_subst)
    ultimately show ?thesis using False by auto
  qed
qed

lemma edit_step:
  "edit (x # xs) ys \<le> Suc (edit xs ys) \<and> edit xs ys \<le> Suc (edit (x # xs) ys)"
proof (induction "length xs + length ys" arbitrary: xs ys x rule: less_induct)
  case less
  show ?case
  proof (cases ys)
    case Nil
    then show ?thesis by simp
  next
    case (Cons y ys')
    have A: "edit (y # ys') xs \<le> Suc (edit ys' xs)" and D: "edit ys' xs \<le> Suc (edit (y # ys') xs)"
      for y using less [of ys' xs y] Cons by (auto simp: add.commute)
    have D': "edit xs ys' \<le> Suc (edit (x # xs) ys')"
      using less [of xs ys' x] Cons by auto
    show ?thesis
    proof (cases "x = y")
      case True
      have "edit xs ys' \<le> Suc (edit xs (x # ys'))" using D [of x] by (simp add: edit_sym)
      moreover have "edit xs (y # ys') \<le> Suc (edit xs ys')" using A [of y] by (simp add: edit_sym)
      ultimately show ?thesis using True Cons by simp
    next
      case False
      have a: "edit xs (y # ys') \<le> Suc (edit xs ys')" using A [of y] by (simp add: edit_sym)
      with D' have "edit xs (y # ys') \<le> Suc (Suc (edit (x # xs) ys'))" by linarith
      with a False Cons show ?thesis by (auto simp: min_def)
    qed
  qed
qed

lemma edit_le_script: "script xs ys n \<Longrightarrow> edit xs ys \<le> n"
proof (induction rule: script.induct)
  case s_nil
  then show ?case by simp
next
  case (s_keep xs ys n x)
  then show ?case by simp
next
  case (s_subst xs ys n x y)
  then show ?case by (auto simp: min_def)
next
  case (s_delete xs ys n x)
  then show ?case using edit_step [of x xs ys] by linarith
next
  case (s_insert xs ys n y)
  then show ?case using edit_step [of y ys xs] by (simp add: edit_sym [of xs])
qed

lemma script_trans:
  "script xs ys n \<Longrightarrow> script ys zs m \<Longrightarrow> \<exists>k\<le>n + m. script xs zs k"
proof (induction arbitrary: zs m rule: script.induct)
  case s_nil
  then show ?case by auto
next
  case (s_delete xs ys n x)
  from s_delete.IH [OF s_delete.prems] obtain k where "k \<le> n + m" "script xs zs k" by auto
  then show ?case by (auto intro!: exI [of _ "Suc k"] script.s_delete)
next
  case (s_keep xs ys n x)
  from s_keep.prems show ?case
  proof (induction "x # ys" zs m rule: script.induct)
    case (s_keep zs' m)
    from \<open>\<And>zs m. script ys zs m \<Longrightarrow> \<exists>k\<le>n + m. script xs zs k\<close> [OF s_keep(1)]
    obtain k where "k \<le> n + m" "script xs zs' k" by auto
    then show ?case by (auto intro!: exI [of _ k] script.s_keep)
  next
    case (s_subst zs' m z)
    from \<open>\<And>zs m. script ys zs m \<Longrightarrow> \<exists>k\<le>n + m. script xs zs k\<close> [OF s_subst(1)]
    obtain k where "k \<le> n + m" "script xs zs' k" by auto
    then show ?case by (auto intro!: exI [of _ "Suc k"] script.s_subst)
  next
    case (s_delete zs m)
    from \<open>\<And>zs m. script ys zs m \<Longrightarrow> \<exists>k\<le>n + m. script xs zs k\<close> [OF s_delete(1)]
    obtain k where "k \<le> n + m" "script xs zs k" by auto
    then show ?case by (auto intro!: exI [of _ "Suc k"] script.s_delete)
  next
    case (s_insert zs m z)
    then obtain k where "k \<le> n + m" "script (x # xs) zs k" by auto
    then show ?case by (auto intro!: exI [of _ "Suc k"] script.s_insert)
  qed
next
  case (s_subst xs ys n x y)
  from s_subst.prems show ?case
  proof (induction "y # ys" zs m rule: script.induct)
    case (s_keep zs' m)
    from \<open>\<And>zs m. script ys zs m \<Longrightarrow> \<exists>k\<le>n + m. script xs zs k\<close> [OF s_keep(1)]
    obtain k where "k \<le> n + m" "script xs zs' k" by auto
    then show ?case by (auto intro!: exI [of _ "Suc k"] script.s_subst)
  next
    case (s_subst zs' m z)
    from \<open>\<And>zs m. script ys zs m \<Longrightarrow> \<exists>k\<le>n + m. script xs zs k\<close> [OF s_subst(1)]
    obtain k where "k \<le> n + m" "script xs zs' k" by auto
    then show ?case by (auto intro!: exI [of _ "Suc k"] script.s_subst)
  next
    case (s_delete zs m)
    from \<open>\<And>zs m. script ys zs m \<Longrightarrow> \<exists>k\<le>n + m. script xs zs k\<close> [OF s_delete(1)]
    obtain k where "k \<le> n + m" "script xs zs k" by auto
    then show ?case by (auto intro!: exI [of _ "Suc k"] script.s_delete)
  next
    case (s_insert zs m z)
    then obtain k where "k \<le> Suc n + m" "script (x # xs) zs k" by auto
    then show ?case by (auto intro!: exI [of _ "Suc k"] script.s_insert)
  qed
next
  case (s_insert xs ys n y)
  from s_insert.prems show ?case
  proof (induction "y # ys" zs m rule: script.induct)
    case (s_keep zs' m)
    from \<open>\<And>zs m. script ys zs m \<Longrightarrow> \<exists>k\<le>n + m. script xs zs k\<close> [OF s_keep(1)]
    obtain k where "k \<le> n + m" "script xs zs' k" by auto
    then show ?case by (auto intro!: exI [of _ "Suc k"] script.s_insert)
  next
    case (s_subst zs' m z)
    from \<open>\<And>zs m. script ys zs m \<Longrightarrow> \<exists>k\<le>n + m. script xs zs k\<close> [OF s_subst(1)]
    obtain k where "k \<le> n + m" "script xs zs' k" by auto
    then show ?case by (auto intro!: exI [of _ "Suc k"] script.s_insert)
  next
    case (s_delete zs m)
    from \<open>\<And>zs m. script ys zs m \<Longrightarrow> \<exists>k\<le>n + m. script xs zs k\<close> [OF s_delete(1)]
    obtain k where "k \<le> n + m" "script xs zs k" by auto
    then show ?case by (auto intro!: exI [of _ k])
  next
    case (s_insert zs m z)
    then obtain k where "k \<le> Suc n + m" "script xs zs k" by auto
    then show ?case by (auto intro!: exI [of _ "Suc k"] script.s_insert)
  qed
qed

lemma edit_triangle: "edit xs zs \<le> edit xs ys + edit ys zs"
proof -
  from script_trans [OF script_edit script_edit]
  obtain k where "k \<le> edit xs ys + edit ys zs" "script xs zs k" by blast
  with edit_le_script [of xs zs k] show ?thesis by linarith
qed

lemma fold_upt_invariant:
  assumes "a \<le> b" and "P a s"
    and "\<And>k s. a \<le> k \<Longrightarrow> k < b \<Longrightarrow> P k s \<Longrightarrow> P (Suc k) (f k s)"
  shows "P b (fold f [a..<b] s)"
  using assms
proof (induction b)
  case 0
  then show ?case by simp
next
  case (Suc b)
  show ?case
  proof (cases "a = Suc b")
    case True
    with Suc.prems show ?thesis by simp
  next
    case False
    with Suc.prems have ab: "a \<le> b" by simp
    have "P b (fold f [a..<b] s)"
      using ab Suc.prems(2) Suc.prems(3) by (intro Suc.IH) auto
    then have "P (Suc b) (f b (fold f [a..<b] s))" using ab by (intro Suc.prems(3)) auto
    with ab show ?thesis by simp
  qed
qed

lemma dims_dp_set:
  assumes "dims dp n m"
  shows "dims (dp_set dp i j v) n m"
proof -
  have "length (dp_set dp i j v ! r) = m" if "r < n" for r
  proof (cases "i = r")
    case True
    with assms that show ?thesis by (simp add: dims_def dp_set_def)
  next
    case False
    with assms that show ?thesis by (simp add: dims_def dp_set_def)
  qed
  with assms show ?thesis by (simp add: dims_def dp_set_def)
qed

lemma nth_dp_set:
  "dims dp n m \<Longrightarrow> i < n \<Longrightarrow> j < m \<Longrightarrow> r < n \<Longrightarrow>
   dp_set dp i j v ! r ! c = (if r = i \<and> c = j then v else dp ! r ! c)"
  by (auto simp: dims_def dp_set_def nth_list_update)

lemma prefix_distance_0 [simp]:
  "prefix_distance w1 w2 0 j = min j (length w2)" "prefix_distance w1 w2 i 0 = min i (length w1)"
  by (simp_all add: prefix_distance_def min.commute)

lemma prefix_distance_Suc:
  assumes "i < length w1" and "j < length w2"
  shows "prefix_distance w1 w2 (Suc i) (Suc j) =
     (if w1 ! i = w2 ! j then prefix_distance w1 w2 i j
      else 1 + min (prefix_distance w1 w2 i (Suc j))
                   (min (prefix_distance w1 w2 (Suc i) j) (prefix_distance w1 w2 i j)))"
  using assms by (simp add: prefix_distance_def take_Suc_conv_app_nth)

lemma filled_init:
  fixes w1 w2 :: string
  defines "dp0 \<equiv> replicate (length w1 + 1) (replicate (length w2 + 1) 0)"
  defines "dp1 \<equiv> fold (\<lambda>i dp. dp_set dp i 0 i) [0..<length w1 + 1] dp0"
  defines "dp2 \<equiv> fold (\<lambda>j dp. dp_set dp 0 j j) [0..<length w2 + 1] dp1"
  shows "filled w1 w2 dp2 1 1"
proof -
  let ?n = "length w1 + 1" and ?m = "length w2 + 1"
  have "length (dp0 ! r) = ?m" if "r < ?n" for r
    unfolding dp0_def by (simp only: nth_replicate [OF that] length_replicate)
  moreover have "length dp0 = ?n" unfolding dp0_def by (simp only: length_replicate)
  ultimately have d0: "dims dp0 ?n ?m" unfolding dims_def by blast
  have "dims dp1 ?n ?m \<and> (\<forall>r<?n. dp1 ! r ! 0 = r)"
    unfolding dp1_def
  proof (rule fold_upt_invariant [where P = "\<lambda>k dp. dims dp ?n ?m \<and> (\<forall>r<k. dp ! r ! 0 = r)"])
    show "0 \<le> ?n" by simp
    show "dims dp0 ?n ?m \<and> (\<forall>r<0. dp0 ! r ! 0 = r)" using d0 by simp
    fix k dp
    assume "k < ?n" and "dims dp ?n ?m \<and> (\<forall>r<k. dp ! r ! 0 = r)"
    then show "dims (dp_set dp k 0 k) ?n ?m \<and> (\<forall>r<Suc k. dp_set dp k 0 k ! r ! 0 = r)"
      by (auto simp: dims_dp_set nth_dp_set [where n = "?n" and m = "?m"])
  qed
  then have d1: "dims dp1 ?n ?m" and c1: "\<forall>r<?n. dp1 ! r ! 0 = r" by auto
  have "dims dp2 ?n ?m \<and> (\<forall>r<?n. dp2 ! r ! 0 = r) \<and> (\<forall>c<?m. dp2 ! 0 ! c = c)"
    unfolding dp2_def
  proof (rule fold_upt_invariant [where P = "\<lambda>k dp. dims dp ?n ?m \<and> (\<forall>r<?n. dp ! r ! 0 = r)
        \<and> (\<forall>c<k. dp ! 0 ! c = c)"])
    show "0 \<le> ?m" by simp
    show "dims dp1 ?n ?m \<and> (\<forall>r<?n. dp1 ! r ! 0 = r) \<and> (\<forall>c<0. dp1 ! 0 ! c = c)"
      using d1 c1 by simp
    fix k dp
    assume "k < ?m" and "dims dp ?n ?m \<and> (\<forall>r<?n. dp ! r ! 0 = r) \<and> (\<forall>c<k. dp ! 0 ! c = c)"
    then show "dims (dp_set dp 0 k k) ?n ?m \<and> (\<forall>r<?n. dp_set dp 0 k k ! r ! 0 = r) \<and>
        (\<forall>c<Suc k. dp_set dp 0 k k ! 0 ! c = c)"
      by (auto simp: dims_dp_set nth_dp_set [where n = "?n" and m = "?m"] less_Suc_eq)
  qed
  then have d2: "dims dp2 ?n ?m" and c2: "\<And>r. r \<le> length w1 \<Longrightarrow> dp2 ! r ! 0 = r"
    and r2: "\<And>c. c \<le> length w2 \<Longrightarrow> dp2 ! 0 ! c = c"
    by (auto simp: less_Suc_eq_le)
  have "dp2 ! r ! c = prefix_distance w1 w2 r c"
    if "r \<le> length w1 \<and> c \<le> length w2 \<and> (r < 1 \<or> r = 1 \<and> c < 1)" for r c
  proof (cases "r = 0")
    case True
    with that r2 [of c] show ?thesis by simp
  next
    case False
    with that c2 [of r] show ?thesis by simp
  qed
  with d2 c2 show ?thesis unfolding filled_def by blast
qed

lemma filled_cell:
  assumes f: "filled w1 w2 dp i j" and i: "1 \<le> i" "i \<le> length w1" and j: "1 \<le> j" "j \<le> length w2"
  shows "filled w1 w2 (dp_set dp i j (dp_cell w1 w2 dp i j)) i (Suc j)"
proof -
  let ?n = "length w1 + 1" and ?m = "length w2 + 1"
  from f have d: "dims dp ?n ?m" by (simp add: filled_def)
  from f have col: "\<forall>r\<le>length w1. dp ! r ! 0 = r" by (simp add: filled_def)
  from f have old: "\<And>r c. r \<le> length w1 \<Longrightarrow> c \<le> length w2 \<Longrightarrow> r < i \<or> (r = i \<and> c < j) \<Longrightarrow>
      dp ! r ! c = prefix_distance w1 w2 r c" by (simp add: filled_def)
  obtain i' j' where ij: "i = Suc i'" "j = Suc j'" using i j by (cases i; cases j) auto
  have v: "dp_cell w1 w2 dp i j = prefix_distance w1 w2 i j"
    using i j old [of i' j] old [of i j'] old [of i' j']
    by (simp add: dp_cell_def ij prefix_distance_Suc)
  have nth: "dp_set dp i j (dp_cell w1 w2 dp i j) ! r ! c =
      (if r = i \<and> c = j then prefix_distance w1 w2 i j else dp ! r ! c)" if "r \<le> length w1" for r c
    using nth_dp_set [OF d, of i j r] i j that v by simp
  show ?thesis
    unfolding filled_def
  proof (intro conjI allI impI)
    show "dims (dp_set dp i j (dp_cell w1 w2 dp i j)) ?n ?m" using d by (rule dims_dp_set)
  next
    fix r assume "r \<le> length w1"
    then show "dp_set dp i j (dp_cell w1 w2 dp i j) ! r ! 0 = r" using col j by (simp add: nth)
  next
    fix r c
    assume "r \<le> length w1 \<and> c \<le> length w2 \<and> (r < i \<or> r = i \<and> c < Suc j)"
    then show "dp_set dp i j (dp_cell w1 w2 dp i j) ! r ! c = prefix_distance w1 w2 r c"
      using old [of r c] by (auto simp: nth less_Suc_eq)
  qed
qed

lemma filled_row:
  assumes f: "filled w1 w2 dp i 1" and i: "1 \<le> i" "i \<le> length w1"
  shows "filled w1 w2
           (fold (\<lambda>j dp. dp_set dp i j (dp_cell w1 w2 dp i j)) [1..<length w2 + 1] dp) (Suc i) 1"
proof -
  define dp' where "dp' = fold (\<lambda>j dp. dp_set dp i j (dp_cell w1 w2 dp i j)) [1..<length w2 + 1] dp"
  have "filled w1 w2 dp' i (length w2 + 1)"
    unfolding dp'_def
  proof (rule fold_upt_invariant [where P = "\<lambda>j dp. filled w1 w2 dp i j"])
    show "1 \<le> length w2 + 1" by simp
    show "filled w1 w2 dp i 1" by (rule f)
    fix k s
    assume "1 \<le> k" "k < length w2 + 1" "filled w1 w2 s i k"
    then show "filled w1 w2 (dp_set s i k (dp_cell w1 w2 s i k)) i (Suc k)"
      using i by (intro filled_cell) auto
  qed
  then have d: "dims dp' (length w1 + 1) (length w2 + 1)"
    and col: "\<And>r. r \<le> length w1 \<Longrightarrow> dp' ! r ! 0 = r"
    and old: "\<And>r c. r \<le> length w1 \<Longrightarrow> c \<le> length w2 \<Longrightarrow> r < i \<or> (r = i \<and> c < length w2 + 1)
        \<Longrightarrow> dp' ! r ! c = prefix_distance w1 w2 r c"
    unfolding filled_def by blast+
  have "dp' ! r ! c = prefix_distance w1 w2 r c"
    if "r \<le> length w1 \<and> c \<le> length w2 \<and> (r < Suc i \<or> r = Suc i \<and> c < 1)" for r c
  proof (cases "r = Suc i")
    case True
    with that col [of r] show ?thesis by simp
  next
    case False
    with that have "r < i \<or> (r = i \<and> c < length w2 + 1)" by auto
    with that old [of r c] show ?thesis by blast
  qed
  with d col have "filled w1 w2 dp' (Suc i) 1"
    unfolding filled_def by blast
  then show ?thesis by (simp only: dp'_def)
qed

lemma calculateEditDistance_edit:
  "calculateEditDistance w1 w2 = edit (rev w1) (rev w2)"
proof -
  define dp0 where "dp0 = replicate (length w1 + 1) (replicate (length w2 + 1) (0::nat))"
  define dp1 where "dp1 = fold (\<lambda>i dp. dp_set dp i 0 i) [0..<length w1 + 1] dp0"
  define dp2 where "dp2 = fold (\<lambda>j dp. dp_set dp 0 j j) [0..<length w2 + 1] dp1"
  define dp3 where "dp3 = fold (\<lambda>i dp. fold (\<lambda>j dp. dp_set dp i j (dp_cell w1 w2 dp i j))
                                  [1..<length w2 + 1] dp) [1..<length w1 + 1] dp2"
  have f2: "filled w1 w2 dp2 1 1"
    unfolding dp2_def dp1_def dp0_def by (rule filled_init)
  have "filled w1 w2 dp3 (length w1 + 1) 1"
    unfolding dp3_def
  proof (rule fold_upt_invariant [where P = "\<lambda>i dp. filled w1 w2 dp i 1"])
    show "1 \<le> length w1 + 1" by simp
    show "filled w1 w2 dp2 1 1" by (rule f2)
    fix k s
    assume "1 \<le> k" "k < length w1 + 1" "filled w1 w2 s k 1"
    then show "filled w1 w2 (fold (\<lambda>j dp. dp_set dp k j (dp_cell w1 w2 dp k j))
        [1..<length w2 + 1] s) (Suc k) 1"
      by (intro filled_row) auto
  qed
  then have "dp3 ! length w1 ! length w2 = prefix_distance w1 w2 (length w1) (length w2)"
    by (simp add: filled_def)
  moreover have "calculateEditDistance w1 w2 = dp3 ! length w1 ! length w2"
    by (simp add: calculateEditDistance_def Let_def dp3_def dp2_def dp1_def dp0_def)
  ultimately show ?thesis by (simp add: prefix_distance_def)
qed

lemma calculateEditDistance_kitten: "calculateEditDistance ''kitten'' ''sitting'' = 3"
  by code_simp

text \<open>
  Claim C7. The distance that \<open>calculateEditDistance\<close> reads from its table is
  symmetric, is zero from a string to itself, and satisfies the triangle
  inequality.
\<close>

theorem edit_distance_metric:
  "calculateEditDistance a b = calculateEditDistance b a \<and>
   calculateEditDistance a a = 0 \<and>
   calculateEditDistance a c \<le> calculateEditDistance a b + calculateEditDistance b c"
  unfolding calculateEditDistance_edit
  using edit_sym [of "rev a" "rev b"] edit_triangle [of "rev a" "rev c" "rev b"]
  by simp



section \<open>Suggestions\<close>

lemma mset_sort_insert [simp]: "mset (sort_insert cmp x ys) = add_mset x (mset ys)"
  by (induction ys) auto

lemma mset_fold_sort_insert: "mset (fold (sort_insert cmp) xs acc) = mset xs + mset acc"
  by (induction xs arbitrary: acc) auto

lemma mset_std_sort [simp]: "mset (std_sort cmp xs) = mset xs"
  by (simp add: std_sort_def mset_fold_sort_insert)

lemma take_ranked_eq:
  "length acc < m \<Longrightarrow> take_ranked xs acc m = acc @ map fst (take (m - length acc) xs)"
proof (induction xs arbitrary: acc)
  case Nil
  then show ?case by simp
next
  case (Cons x xs)
  show ?case
  proof (cases "Suc (length acc) \<ge> m")
    case True
    with Cons.prems have "m - length acc = Suc 0" by simp
    with True show ?thesis by (simp add: Let_def)
  next
    case False
    then have "length (acc @ [fst x]) < m" by simp
    from Cons.IH [OF this]
    have ih: "take_ranked xs (acc @ [fst x]) m =
        acc @ fst x # map fst (take (m - Suc (length acc)) xs)" by simp
    from False obtain k where k: "m - length acc = Suc k" "m - Suc (length acc) = k"
      by (cases "m - length acc") auto
    from False ih show ?thesis by (simp add: Let_def k)
  qed
qed

lemma rankCandidates_take:
  "1 \<le> max_suggestions eng \<Longrightarrow>
   rankCandidates score eng word candidates =
     take (max_suggestions eng) (ranked_pool score word candidates)"
  by (simp add: rankCandidates_def ranked_pool_def Let_def take_ranked_eq take_map)

lemma mset_ranked_pool: "mset (ranked_pool score word candidates) = mset candidates"
proof -
  have "mset (ranked_pool score word candidates) =
        image_mset fst (mset (map (\<lambda>c. (c, score word c)) candidates))"
    unfolding ranked_pool_def by (simp only: mset_map mset_std_sort)
  also have "\<dots> = mset candidates" by (simp add: multiset.map_comp comp_def)
  finally show ?thesis .
qed

lemma sorted_ranked_pool:
  "sorted_wrt (\<lambda>a b. score word a \<ge> score word b) (ranked_pool score word candidates)"
proof -
  let ?scored = "map (\<lambda>c. (c, score word c)) candidates"
  let ?sorted = "std_sort (\<lambda>a b. snd a > snd b) ?scored"
  have s: "sorted_wrt (\<lambda>a b. snd a \<ge> snd b) ?sorted" by (rule sorted_std_sort)
  have p: "snd p = score word (fst p)" if "p \<in> set ?sorted" for p
    using that by auto
  have "sorted_wrt (\<lambda>a b. score word (fst a) \<ge> score word (fst b)) ?sorted"
  proof (rule sorted_wrt_mono_rel [OF _ s])
    fix x y
    assume "x \<in> set ?sorted" "y \<in> set ?sorted" "snd y \<le> snd x"
    then show "score word (fst y) \<le> score word (fst x)" using p [of x] p [of y] by simp
  qed
  then show ?thesis by (simp add: ranked_pool_def sorted_wrt_map)
qed

lemma set_insert_known:
  "set (insert_known d cs s) = set s \<union> {c \<in> set cs. containsWord d c}"
  unfolding insert_known_def by (induction cs arbitrary: s) auto

lemma set_insert_all: "set (insert_all cs s) = set s \<union> set cs"
  unfolding insert_all_def by (induction cs arbitrary: s) auto

lemma set_collectCandidates:
  "set (collectCandidates eng d word) =
     {c \<in> set (generateDeletionCandidates word) \<union> set (generateInsertionCandidates word) \<union>
            set (generateSubstitutionCandidates word) \<union> set (generateTranspositionCandidates word) \<union>
            set (generateSplitCandidates d word). containsWord d c}
     \<union> set (generatePhoneticSuggestions eng word) \<union> set (generatePrefixSuggestions eng word)"
  by (auto simp: collectCandidates_def Let_def set_insert_known set_insert_all)

lemma set_generatePrefixSuggestions:
  "dictionary_ptr eng = Some d \<Longrightarrow> c \<in> set (generatePrefixSuggestions eng word) \<Longrightarrow>
   \<exists>len. c \<in> set (getWordsWithPrefix d (take len word) 20)"
  by (auto simp: generatePrefixSuggestions_def Let_def simp del: upt_Suc)

lemma phonetic_contained:
  assumes "add_only d" and "c \<in> set (getPhoneticMatches d word)"
  shows "containsWord d c"
proof -
  from add_only_invariants [OF assms(1)] have inv: "words_lowercase d" "buckets_agree d" by auto
  from assms(2) obtain ws where "map_of (phonetic_map d) (generatePhoneticCode word) = Some ws"
    "c \<in> set ws"
    by (cases "map_of (phonetic_map d) (generatePhoneticCode word)")
       (auto simp: getPhoneticMatches_def bucket_def)
  with inv(2) have "c \<in> set (word_set d)" unfolding buckets_agree_def by blast
  moreover from this inv(1) have "to_lower c = c" by (simp add: words_lowercase_def)
  ultimately show ?thesis by (simp add: containsWord_def)
qed

lemma pool_contained:
  assumes "dictionary_ptr eng = Some d" and "add_only d" and "c \<in> set (collectCandidates eng d word)"
  shows "containsWord d c"
proof -
  from assms(3) consider "containsWord d c" | "c \<in> set (generatePhoneticSuggestions eng word)"
    | "c \<in> set (generatePrefixSuggestions eng word)"
    unfolding set_collectCandidates by blast
  then show ?thesis
  proof cases
    case 1
    then show ?thesis .
  next
    case 2
    with assms(1) have "c \<in> set (getPhoneticMatches d word)"
      by (simp add: generatePhoneticSuggestions_def)
    with assms(2) show ?thesis by (rule phonetic_contained)
  next
    case 3
    from set_generatePrefixSuggestions [OF assms(1) 3] obtain len
      where "c \<in> set (getWordsWithPrefix d (take len word) 20)" ..
    with assms(2) show ?thesis by (rule getWordsWithPrefix_contained)
  qed
qed

text \<open>
  Claim C5, as the code has it, for every function \<open>score\<close>. For an engine with a
  dictionary and \<open>max_suggestions_\<close> of at least one, and a word that is not empty,
  \<open>generateSuggestions\<close> returns the first \<open>max_suggestions_\<close> entries of an
  arrangement of the candidate pool in descending order of score, so it returns at
  most \<open>max_suggestions_\<close> words. When the dictionary was built by \<open>addWord\<close> and
  \<open>clear\<close> alone, every returned word is contained in it.
\<close>

theorem suggestions_ranked:
  assumes "dictionary_ptr eng = Some d" and "word \<noteq> []" and "1 \<le> max_suggestions eng"
  shows "generateSuggestions score eng word =
           take (max_suggestions eng) (ranked_pool score word (collectCandidates eng d word)) \<and>
         mset (ranked_pool score word (collectCandidates eng d word)) =
           mset (collectCandidates eng d word) \<and>
         sorted_wrt (\<lambda>a b. score word a \<ge> score word b)
           (ranked_pool score word (collectCandidates eng d word)) \<and>
         length (generateSuggestions score eng word) \<le> max_suggestions eng \<and>
         (add_only d \<longrightarrow> (\<forall>s\<in>set (generateSuggestions score eng word). containsWord d s))"
proof -
  let ?pool = "collectCandidates eng d word"
  have g: "generateSuggestions score eng word = take (max_suggestions eng) (ranked_pool score word ?pool)"
    using assms by (simp add: generateSuggestions_def rankCandidates_take)
  have "set (ranked_pool score word ?pool) = set ?pool"
    using mset_ranked_pool [of score word ?pool] by (rule mset_eq_setD)
  then have "set (generateSuggestions score eng word) \<subseteq> set ?pool"
    unfolding g using set_take_subset [of "max_suggestions eng" "ranked_pool score word ?pool"]
    by simp
  with pool_contained [OF assms(1)]
  have "add_only d \<longrightarrow> (\<forall>s\<in>set (generateSuggestions score eng word). containsWord d s)" by blast
  moreover have "length (generateSuggestions score eng word) \<le> max_suggestions eng"
    unfolding g by simp
  ultimately show ?thesis using g mset_ranked_pool sorted_ranked_pool by blast
qed

lemma ranked_pool_single [simp]: "ranked_pool score word [c] = [c]"
  by (simp add: ranked_pool_def std_sort_def)

theorem suggestions_ranked_witness:
  "collectCandidates engine_te lexicon_te ''teh'' = [''the'', ''ten'', ''tea''] \<and>
   generateSuggestions (calculateSuggestionScore engine_te lexicon_te) engine_te ''teh'' =
     take 10 (ranked_pool (calculateSuggestionScore engine_te lexicon_te) ''teh''
                [''the'', ''ten'', ''tea'']) \<and>
   mset (ranked_pool (calculateSuggestionScore engine_te lexicon_te) ''teh''
           [''the'', ''ten'', ''tea'']) = mset [''the'', ''ten'', ''tea''] \<and>
   length (generateSuggestions (calculateSuggestionScore engine_te lexicon_te) engine_te ''teh'')
     \<le> 10 \<and>
   list_all (containsWord lexicon_te)
     (generateSuggestions (calculateSuggestionScore engine_te lexicon_te) engine_te ''teh'')"
proof -
  have p: "dictionary_ptr engine_te = Some lexicon_te"
    by (simp add: engine_te_def SuggestionEngine_def)
  have mv: "max_suggestions engine_te = 10"
    by (simp add: engine_te_def SuggestionEngine_def)
  then have m: "1 \<le> max_suggestions engine_te" by simp
  have a: "add_only lexicon_te" unfolding lexicon_te_def by (intro add_only.intros)
  have c: "collectCandidates engine_te lexicon_te ''teh'' = [''the'', ''ten'', ''tea'']"
    by code_simp
  show ?thesis
    using suggestions_ranked [OF p _ m, of "''teh''" "calculateSuggestionScore engine_te lexicon_te"] a
    by (simp add: c mv list_all_iff)
qed

text \<open>
  The claim as stated fails on the order of candidates with equal scores. For the
  lexicon \<open>{at:1, it:1}\<close> and the word \<open>ot\<close>, the substitutions insert \<open>at\<close> into
  the candidate set before \<open>it\<close>, and the two have the same score. A stable sort
  of the candidates in insertion order gives \<open>[at, it]\<close>; \<open>generateSuggestions\<close>
  sorts the vector it gets by iterating the \<open>unordered_set\<close>, and returns
  \<open>[it, at]\<close>.
\<close>

lemma at_it_pool: "collectCandidates engine_at_it lexicon_at_it ''ot'' = [''it'', ''at'']"
  by code_simp

lemma at_it_order: "insertion_order engine_at_it lexicon_at_it ''ot'' = [''at'', ''it'']"
  by code_simp

lemma at_it_score:
  "calculateSuggestionScore engine_at_it lexicon_at_it ''ot'' ''at'' =
   calculateSuggestionScore engine_at_it lexicon_at_it ''ot'' ''it''"
proof -
  have "calculateEditDistance ''ot'' ''at'' = calculateEditDistance ''ot'' ''it''" by code_simp
  moreover have "getWordFrequency lexicon_at_it ''at'' = getWordFrequency lexicon_at_it ''it''"
    by code_simp
  ultimately show ?thesis by (simp add: calculateSuggestionScore_def)
qed

theorem suggestions_ranked_counterexample:
  "insertion_order engine_at_it lexicon_at_it ''ot'' = [''at'', ''it''] \<and>
   calculateSuggestionScore engine_at_it lexicon_at_it ''ot'' ''at'' =
     calculateSuggestionScore engine_at_it lexicon_at_it ''ot'' ''it'' \<and>
   take (max_suggestions engine_at_it)
     (sort_key (\<lambda>c. - calculateSuggestionScore engine_at_it lexicon_at_it ''ot'' c)
        (insertion_order engine_at_it lexicon_at_it ''ot'')) = [''at'', ''it''] \<and>
   generateSuggestions (calculateSuggestionScore engine_at_it lexicon_at_it) engine_at_it ''ot''
     = [''it'', ''at'']"
proof -
  have p: "dictionary_ptr engine_at_it = Some lexicon_at_it"
    and m: "max_suggestions engine_at_it = 10"
    by (simp_all add: engine_at_it_def SuggestionEngine_def)
  have "generateSuggestions (calculateSuggestionScore engine_at_it lexicon_at_it) engine_at_it ''ot''
     = [''it'', ''at'']"
    by (simp add: generateSuggestions_def p rankCandidates_def m at_it_pool at_it_score
        std_sort_def Let_def)
  then show ?thesis
    by (simp add: at_it_order at_it_score m)
qed

lemma tolower_space: "tolower c = CHR '' '' \<longleftrightarrow> c = CHR '' ''"
proof (cases "isupper c")
  case True
  then have "(of_char (tolower c) :: nat) \<noteq> of_char (CHR '' '')"
    using of_char_tolower_upper [OF True] by (simp add: isupper_def)
  moreover from True have "c \<noteq> CHR '' ''" by (auto simp: isupper_def)
  ultimately show ?thesis by auto
next
  case False
  then show ?thesis by (simp add: tolower_def)
qed

lemma space_to_lower: "CHR '' '' \<in> set (to_lower w) \<longleftrightarrow> CHR '' '' \<in> set w"
proof
  assume "CHR '' '' \<in> set (to_lower w)"
  then obtain c where "c \<in> set w" "tolower c = CHR '' ''" by (auto simp: to_lower_def)
  then show "CHR '' '' \<in> set w" by (simp add: tolower_space)
next
  assume "CHR '' '' \<in> set w"
  moreover have "tolower (CHR '' '') = CHR '' ''" by (simp add: tolower_space)
  ultimately show "CHR '' '' \<in> set (to_lower w)" by (force simp: to_lower_def)
qed

lemma contained_no_space:
  "no_space_stored d \<Longrightarrow> containsWord d c \<Longrightarrow> CHR '' '' \<notin> set c"
  using space_to_lower [of c] by (auto simp: no_space_stored_def containsWord_def)

lemma split_has_space:
  "c \<in> set (generateSplitCandidates d word) \<Longrightarrow> CHR '' '' \<in> set c"
  by (auto simp: generateSplitCandidates_def Let_def split: if_splits)

lemma phonetic_no_space:
  assumes "no_space_stored d" and "c \<in> set (getPhoneticMatches d word)"
  shows "CHR '' '' \<notin> set c"
proof -
  from assms(2) obtain ws where "map_of (phonetic_map d) (generatePhoneticCode word) = Some ws"
    "c \<in> set ws"
    by (cases "map_of (phonetic_map d) (generatePhoneticCode word)")
       (auto simp: getPhoneticMatches_def bucket_def)
  with assms(1) show ?thesis unfolding no_space_stored_def by blast
qed

lemma prefix_no_space:
  assumes "no_space_stored d" and "c \<in> set (getWordsWithPrefix d p m)"
  shows "CHR '' '' \<notin> set c"
  using getWordsWithPrefix_terminal [OF assms(2)] assms(1) unfolding no_space_stored_def by blast

lemma pool_no_space:
  assumes "dictionary_ptr eng = Some d" and "no_space_stored d"
    and "c \<in> set (collectCandidates eng d word)"
  shows "CHR '' '' \<notin> set c"
proof -
  from assms(3) consider "containsWord d c" | "c \<in> set (generatePhoneticSuggestions eng word)"
    | "c \<in> set (generatePrefixSuggestions eng word)"
    unfolding set_collectCandidates by blast
  then show ?thesis
  proof cases
    case 1
    with assms(2) show ?thesis by (rule contained_no_space)
  next
    case 2
    with assms(1) have "c \<in> set (getPhoneticMatches d word)"
      by (simp add: generatePhoneticSuggestions_def)
    with assms(2) show ?thesis by (rule phonetic_no_space)
  next
    case 3
    from set_generatePrefixSuggestions [OF assms(1) 3] obtain len
      where "c \<in> set (getWordsWithPrefix d (take len word) 20)" ..
    with assms(2) show ?thesis by (rule prefix_no_space)
  qed
qed

lemma set_take_ranked: "set (take_ranked xs acc m) \<subseteq> set acc \<union> fst ` set xs"
proof (induction xs arbitrary: acc)
  case Nil
  then show ?case by simp
next
  case (Cons x xs)
  show ?case
  proof (cases "m \<le> length (acc @ [fst x])")
    case True
    then show ?thesis by (auto simp: Let_def)
  next
    case False
    then have "take_ranked (x # xs) acc m = take_ranked xs (acc @ [fst x]) m"
      by (simp add: Let_def)
    with Cons.IH [of "acc @ [fst x]"] show ?thesis by auto
  qed
qed

lemma set_rankCandidates: "set (rankCandidates score eng word candidates) \<subseteq> set candidates"
proof -
  have "set (rankCandidates score eng word candidates) \<subseteq>
        fst ` set (std_sort (\<lambda>a b. snd a > snd b) (map (\<lambda>c. (c, score word c)) candidates))"
    using set_take_ranked [of "std_sort (\<lambda>a b. snd a > snd b) (map (\<lambda>c. (c, score word c)) candidates)"
        "[]" "max_suggestions eng"]
    by (simp add: rankCandidates_def Let_def)
  then show ?thesis by auto
qed

lemma set_generateSuggestions:
  "s \<in> set (generateSuggestions score eng word) \<Longrightarrow>
   \<exists>d. dictionary_ptr eng = Some d \<and> s \<in> set (collectCandidates eng d word)"
  using set_rankCandidates [of score eng word]
  by (cases "dictionary_ptr eng") (auto simp: generateSuggestions_def split: if_splits)

text \<open>
  Claim C10. When no word stored in the dictionary contains a space, every split
  candidate contains a space, fails the membership test and is not in the
  candidate pool, and no suggestion that \<open>generateSuggestions\<close> returns contains a
  space.
\<close>

theorem no_split_suggestions:
  assumes "dictionary_ptr eng = Some d" and "no_space_stored d"
  shows "(\<forall>c\<in>set (generateSplitCandidates d word).
            CHR '' '' \<in> set c \<and> \<not> containsWord d c \<and> c \<notin> set (collectCandidates eng d word)) \<and>
         (\<forall>s\<in>set (generateSuggestions score eng word). CHR '' '' \<notin> set s)"
proof (intro conjI ballI)
  fix c assume c: "c \<in> set (generateSplitCandidates d word)"
  then show sp: "CHR '' '' \<in> set c" by (rule split_has_space)
  with contained_no_space [OF assms(2)] show "\<not> containsWord d c" by blast
  from sp pool_no_space [OF assms] show "c \<notin> set (collectCandidates eng d word)" by blast
next
  fix s assume "s \<in> set (generateSuggestions score eng word)"
  from set_generateSuggestions [OF this] assms(1)
  have "s \<in> set (collectCandidates eng d word)" by auto
  with assms show "CHR '' '' \<notin> set s" by (rule pool_no_space)
qed

lemma no_space_fresh: "no_space_stored Dictionary"
proof -
  have "\<not> terminal (trie_root Dictionary) w" for w
    by (simp add: Dictionary_def)
  then show ?thesis by (simp add: no_space_stored_def Dictionary_def)
qed

lemma no_space_addWord:
  assumes "no_space_stored d" and "CHR '' '' \<notin> set w"
  shows "no_space_stored (addWord d w f)"
proof (cases "w = []")
  case True
  with assms show ?thesis by (simp add: addWord_def)
next
  case False
  let ?nw = "to_lower w"
  let ?code = "generatePhoneticCode ?nw"
  have nw: "CHR '' '' \<notin> set ?nw" using assms(2) by (simp add: space_to_lower)
  have ws: "word_set (addWord d w f) = uset_insert ?nw (word_set d)"
    and pm: "phonetic_map (addWord d w f) =
      umap_assign ?code (bucket (phonetic_map d) ?code @ [?nw]) (phonetic_map d)"
    and tr: "trie_root (addWord d w f) = insertIntoTrie (trie_root d) ?nw f"
    using False by (simp_all add: addWord_def Let_def)
  have old: "\<forall>v\<in>set (bucket (phonetic_map d) ?code). CHR '' '' \<notin> set v"
  proof (cases "map_of (phonetic_map d) ?code")
    case None
    then show ?thesis by (simp add: bucket_def)
  next
    case (Some vs)
    with assms(1) have "\<forall>v\<in>set vs. CHR '' '' \<notin> set v" unfolding no_space_stored_def by blast
    with Some show ?thesis by (simp add: bucket_def)
  qed
  have 1: "\<forall>v\<in>set (word_set (addWord d w f)). CHR '' '' \<notin> set v"
    using assms(1) nw unfolding ws no_space_stored_def by auto
  have 2: "\<forall>v\<in>set vs. CHR '' '' \<notin> set v"
    if "map_of (phonetic_map (addWord d w f)) code = Some vs" for code vs
  proof (cases "code = ?code")
    case True
    with that have "vs = bucket (phonetic_map d) ?code @ [?nw]" by (simp add: pm)
    with old nw show ?thesis by auto
  next
    case False
    with that have "map_of (phonetic_map d) code = Some vs" by (simp add: pm)
    with assms(1) show ?thesis unfolding no_space_stored_def by blast
  qed
  have 3: "CHR '' '' \<notin> set v" if "terminal (trie_root (addWord d w f)) v" for v
  proof -
    from that have "v = ?nw \<or> terminal (trie_root d) v"
      unfolding tr by (rule terminal_insertIntoTrie)
    with nw assms(1) show ?thesis unfolding no_space_stored_def by blast
  qed
  from 1 2 3 show ?thesis unfolding no_space_stored_def by blast
qed

theorem no_split_suggestions_witness:
  "generateSplitCandidates lexicon_in_to ''into'' = [''in to''] \<and>
   \<not> containsWord lexicon_in_to ''in to'' \<and>
   ''in to'' \<notin> set (collectCandidates engine_in_to lexicon_in_to ''into'') \<and>
   list_all (\<lambda>s. CHR '' '' \<notin> set s)
     (generateSuggestions (calculateSuggestionScore engine_in_to lexicon_in_to) engine_in_to ''into'')"
proof -
  have p: "dictionary_ptr engine_in_to = Some lexicon_in_to"
    by (simp add: engine_in_to_def SuggestionEngine_def)
  have n: "no_space_stored lexicon_in_to"
    unfolding lexicon_in_to_def by (intro no_space_addWord no_space_fresh) simp_all
  have s: "generateSplitCandidates lexicon_in_to ''into'' = [''in to'']" by code_simp
  show ?thesis
    using no_split_suggestions [OF p n, of "''into''"
        "calculateSuggestionScore engine_in_to lexicon_in_to"]
    by (simp add: s list_all_iff)
qed


text \<open>
  Two behaviours that the statement of claim C5 above leaves out. With
  \<open>max_suggestions_\<close> zero the loop of \<open>rankCandidates\<close> still appends the first
  candidate before it tests the bound. After \<open>removeWord\<close> the trie still holds
  the removed word, and the prefix search suggests it.
\<close>

lemma rankCandidates_zero:
  assumes m: "max_suggestions eng = 0"
  shows "length (rankCandidates score eng word (c # cs)) = 1"
proof -
  define sorted where
    "sorted = std_sort (\<lambda>a b. snd a > snd b) (map (\<lambda>c. (c, score word c)) (c # cs))"
  have "length sorted = length (c # cs)" by (simp add: sorted_def)
  then obtain x xs where "sorted = x # xs" by (cases sorted) simp_all
  then have "take_ranked sorted [] 0 = [fst x]" by (simp add: Let_def)
  then show ?thesis unfolding rankCandidates_def Let_def m sorted_def [symmetric] by simp
qed

lemma removed_word_suggested:
  "collectCandidates (SuggestionEngine (Some lexicon_removed)) lexicon_removed ''a'' = [''at''] \<and>
   \<not> containsWord lexicon_removed ''at''"
  by code_simp



section \<open>Saving and loading\<close>

declare decimal.simps [simp del]

lemma digit_char:
  fixes k :: nat
  assumes "k < 10"
  shows "isdigit (char_of (48 + k))" "digit_value (char_of (48 + k)) = int k"
    "\<not> isspace (char_of (48 + k))" "char_of (48 + k) \<noteq> CHR '':''"
    "char_of (48 + k) \<noteq> CHR 0x0A" "char_of (48 + k) \<noteq> CHR ''-''" "char_of (48 + k) \<noteq> CHR ''+''"
proof -
  have v: "(of_char (char_of (48 + k)) :: nat) = 48 + k" using assms by simp
  show "isdigit (char_of (48 + k))" using assms by (simp add: isdigit_def v)
  show "digit_value (char_of (48 + k)) = int k" unfolding digit_value_def v by simp
  show "\<not> isspace (char_of (48 + k))" unfolding isspace_def v using assms by simp
  have ne: "char_of (48 + k) \<noteq> c" if "(of_char c :: nat) < 48 \<or> 57 < (of_char c :: nat)" for c
  proof
    assume "char_of (48 + k) = c"
    then have "(of_char c :: nat) = 48 + k" using v by simp
    with that assms show False by simp
  qed
  show "char_of (48 + k) \<noteq> CHR '':''" by (rule ne) simp
  show "char_of (48 + k) \<noteq> CHR 0x0A" by (rule ne) simp
  show "char_of (48 + k) \<noteq> CHR ''-''" by (rule ne) simp
  show "char_of (48 + k) \<noteq> CHR ''+''" by (rule ne) simp
qed

lemma plain_digit_char: "(k::nat) < 10 \<Longrightarrow> plain_digit (char_of (48 + k))"
  by (simp add: plain_digit_def digit_char)

lemma decimal_digits: "0 \<le> n \<Longrightarrow> decimal n \<noteq> [] \<and> (\<forall>c\<in>set (decimal n). plain_digit c)"
proof (induction n rule: decimal.induct)
  case (1 n)
  show ?case
  proof (cases "n < 10")
    case True
    with 1(2) have "nat n < 10" by simp
    from plain_digit_char [OF this] True show ?thesis by (subst (1 2) decimal.simps) simp
  next
    case False
    then have "nat (n mod 10) < 10" by simp
    from plain_digit_char [OF this] False 1 show ?thesis by (subst (1 2) decimal.simps) simp
  qed
qed

lemma parse_digits_decimal:
  "0 \<le> n \<Longrightarrow>
   parse_digits (decimal n @ r) acc = parse_digits r (acc * 10 ^ length (decimal n) + n)"
proof (induction n arbitrary: r acc rule: decimal.induct)
  case (1 n)
  show ?case
  proof (cases "n < 10")
    case True
    with 1(2) have k: "nat n < 10" by simp
    have d: "decimal n = [char_of (48 + nat n)]" using True by (subst decimal.simps) simp
    show ?thesis using 1(2) by (simp add: d digit_char [OF k])
  next
    case False
    then have k: "nat (n mod 10) < 10" by simp
    have d: "decimal n = decimal (n div 10) @ [char_of (48 + nat (n mod 10))]"
      using False by (subst decimal.simps) simp
    have "parse_digits (decimal n @ r) acc =
        parse_digits (decimal (n div 10) @ (char_of (48 + nat (n mod 10)) # r)) acc"
      by (simp add: d)
    also have "\<dots> = parse_digits (char_of (48 + nat (n mod 10)) # r)
        (acc * 10 ^ length (decimal (n div 10)) + n div 10)"
      using False 1(2) by (intro 1(1)) auto
    also have "\<dots> = parse_digits r
        ((acc * 10 ^ length (decimal (n div 10)) + n div 10) * 10 + n mod 10)"
      using False by (simp add: digit_char [OF k])
    also have "(acc * 10 ^ length (decimal (n div 10)) + n div 10) * 10 + n mod 10 =
        acc * 10 ^ length (decimal n) + n"
      by (simp add: d algebra_simps)
    finally show ?thesis .
  qed
qed

lemma stoul_decimal:
  assumes "0 \<le> n" and "n < 2 ^ 64"
  shows "stoul (decimal n) = Inr (word_of_int n)"
proof -
  from decimal_digits [OF assms(1)] obtain c cs where d: "decimal n = c # cs" and c: "plain_digit c"
    by (cases "decimal n") auto
  have p: "parse_digits (decimal n) 0 = n"
    using parse_digits_decimal [OF assms(1), of "[]" 0] by simp
  from c have "dropWhile isspace (decimal n) = decimal n" by (simp add: d plain_digit_def)
  with c p assms(2) show ?thesis
    by (simp add: stoul_def Let_def d plain_digit_def)
qed

lemma getlines_line:
  "CHR 0x0A \<notin> set l \<Longrightarrow> getlines (l @ CHR 0x0A # rest) acc = (acc @ l) # getlines rest []"
  by (induction l arbitrary: acc) auto

lemma getlines_concat:
  "\<forall>l\<in>set ls. CHR 0x0A \<notin> set l \<Longrightarrow>
   getlines (concat (map (\<lambda>l. l @ [CHR 0x0A]) ls)) [] = ls"
  by (induction ls) (auto simp: getlines_line)

lemma isspace_newline: "isspace (CHR 0x0A)"
  by (simp add: isspace_def)

lemma not_isspace_colon: "\<not> isspace (CHR '':'')"
  by (simp add: isspace_def)

lemma entry_line_chars:
  assumes "plain_word w"
  shows "CHR 0x0A \<notin> set (entry_line (w, f))"
    and "filter (\<lambda>c. \<not> isspace c) (entry_line (w, f)) = entry_line (w, f)"
proof -
  have d: "\<not> isspace c" if "c \<in> set (decimal (uint f))" for c
    using decimal_digits [of "uint f"] that by (simp add: plain_digit_def)
  have w: "\<not> isspace c" if "c \<in> set w" for c
    using assms that by (simp add: plain_word_def)
  have s: "\<not> isspace c" if "c \<in> set (entry_line (w, f))" for c
  proof -
    from that have "c \<in> set w \<or> c = CHR '':'' \<or> c \<in> set (decimal (uint f))"
      by (auto simp: entry_line_def)
    with d w not_isspace_colon show ?thesis by blast
  qed
  with isspace_newline show "CHR 0x0A \<notin> set (entry_line (w, f))" by blast
  from s show "filter (\<lambda>c. \<not> isspace c) (entry_line (w, f)) = entry_line (w, f)"
    by (simp add: filter_id_conv)
qed

lemma ucast_roundtrip: "ucast (word_of_int (uint (f :: 32 word)) :: 64 word) = f"
proof -
  have e: "(word_of_int (uint f) :: 64 word) = ucast f" by (simp only: ucast_eq)
  have "is_up (ucast :: 32 word \<Rightarrow> 64 word)" by (simp add: is_up)
  then have "ucast (ucast f :: 64 word) = f" by (rule ucast_up_ucast_id)
  then show ?thesis by (simp only: e)
qed

lemma ucast_up_down: "ucast (ucast (f :: 32 word) :: 64 word) = f"
proof -
  have "is_up (ucast :: 32 word \<Rightarrow> 64 word)" by (simp add: is_up)
  then show ?thesis by (rule ucast_up_ucast_id)
qed

lemma load_line_entry:
  assumes "plain_word w"
  shows "load_line d (entry_line (w, f)) = Inr (addWord d w f)"
proof -
  let ?line = "entry_line (w, f)"
  have colon: "CHR '':'' \<notin> set w" using assms by (auto simp: plain_word_def)
  have "takeWhile (\<lambda>x. x \<noteq> CHR '':'') (w @ CHR '':'' # r) = w" for r
    using colon by (induction w) auto
  then have tw: "takeWhile (\<lambda>x. x \<noteq> CHR '':'') ?line = w"
    by (simp add: entry_line_def)
  have "CHR '':'' \<in> set ?line" by (simp add: entry_line_def)
  then have f: "find_char CHR '':'' ?line = Some (length w)"
    by (simp add: find_char_def tw)
  have ne: "?line \<noteq> []" by (simp add: entry_line_def)
  have t: "take (length w) ?line = w" "drop (Suc (length w)) ?line = decimal (uint f)"
    by (simp_all add: entry_line_def)
  have "uint f < 2 ^ 32" using uint_lt2p [of f] by simp
  also have "(2::int) ^ 32 < 2 ^ 64" by simp
  finally have "uint f < 2 ^ 64" .
  then have st: "stoul (decimal (uint f)) = Inr (word_of_int (uint f))"
    by (intro stoul_decimal) simp_all
  have fl: "filter (\<lambda>c. \<not> isspace c) ?line = ?line" by (rule entry_line_chars(2) [OF assms])
  show ?thesis
    unfolding load_line_def Let_def fl using ne by (simp add: f t st ucast_up_down)
qed

lemma load_lines_entries:
  "\<forall>e\<in>set es. plain_word (fst e) \<Longrightarrow>
   load_lines d (map entry_line es) = Inr (add_entries es d)"
proof (induction es arbitrary: d)
  case Nil
  then show ?case by (simp add: add_entries_def)
next
  case (Cons e es)
  obtain w f where e: "e = (w, f)" by (cases e)
  from Cons.prems have "plain_word w" by (simp add: e)
  then have "load_line d (entry_line e) = Inr (addWord d w f)" unfolding e by (rule load_line_entry)
  moreover from Cons have "load_lines (addWord d w f) (map entry_line es) = Inr (add_entries es (addWord d w f))"
    by simp
  ultimately show ?case by (simp add: add_entries_def e)
qed

lemma add_entries_word_set:
  "\<forall>e\<in>set es. fst e \<noteq> [] \<and> to_lower (fst e) = fst e \<Longrightarrow>
   set (word_set (add_entries es d)) = set (word_set d) \<union> fst ` set es"
proof (induction es arbitrary: d)
  case Nil
  then show ?case by (simp add: add_entries_def)
next
  case (Cons e es)
  then have "set (word_set (addWord d (fst e) (snd e))) = insert (fst e) (set (word_set d))"
    by (simp add: addWord_def Let_def)
  moreover from Cons have "set (word_set (add_entries es (addWord d (fst e) (snd e)))) =
      set (word_set (addWord d (fst e) (snd e))) \<union> fst ` set es" by simp
  ultimately show ?case by (simp add: add_entries_def)
qed

lemma add_entries_frequencies:
  "\<forall>e\<in>set es. fst e \<noteq> [] \<and> to_lower (fst e) = fst e \<Longrightarrow> distinct (map fst es) \<Longrightarrow>
   map_of (word_frequencies (add_entries es d)) = map_of (word_frequencies d) ++ map_of es"
proof (induction es arbitrary: d)
  case Nil
  then show ?case by (simp add: add_entries_def)
next
  case (Cons e es)
  obtain w f where e: "e = (w, f)" by (cases e)
  from Cons.prems have w: "w \<noteq> []" "to_lower w = w" "w \<notin> fst ` set es" by (auto simp: e)
  then have 1: "map_of (word_frequencies (addWord d w f)) = (map_of (word_frequencies d))(w \<mapsto> f)"
    by (simp add: addWord_def Let_def)
  from Cons have 2: "map_of (word_frequencies (add_entries es (addWord d w f))) =
      map_of (word_frequencies (addWord d w f)) ++ map_of es" by simp
  from w(3) have "w \<notin> dom (map_of es)" by (simp add: dom_map_of_conv_image_fst)
  then have "(map_of (word_frequencies d))(w \<mapsto> f) ++ map_of es =
      (map_of (word_frequencies d) ++ map_of es)(w \<mapsto> f)" by (rule map_add_upd_left)
  then have 3: "map_of (word_frequencies (addWord d w f)) ++ map_of es =
      (map_of (word_frequencies d) ++ map_of es)(w \<mapsto> f)" by (simp only: 1)
  have "map_of (e # es) = (map_of es)(w \<mapsto> f)" by (simp add: e)
  then have 4: "map_of (word_frequencies d) ++ map_of (e # es) =
      (map_of (word_frequencies d) ++ map_of es)(w \<mapsto> f)" by (simp only: map_add_upd)
  have "add_entries (e # es) d = add_entries es (addWord d w f)" by (simp add: add_entries_def e)
  then show ?case by (simp only: 2 3 4)
qed

text \<open>
  Claim C4, for the lexicons it holds for. For every state \<open>d\<close> reached by
  \<open>addWord\<close>, \<open>removeWord\<close> and \<open>clear\<close> in which no word contains white space or a
  colon, \<open>saveToFile\<close> writes \<open>file_contents d\<close>, and \<open>loadFromFile\<close> on these
  contents, into any dictionary, returns true with a dictionary that has the same
  set of words and the same frequency for every word.
\<close>

theorem save_load_roundtrip:
  assumes "reachable d" and "\<forall>w\<in>set (getAllWords d). plain_word w"
  shows "saveToFile True d = (True, Some (file_contents d)) \<and>
         (\<exists>d'. loadFromFile (Some (file_contents d)) d0 = Inr (True, d') \<and>
               set (getAllWords d') = set (getAllWords d) \<and>
               (\<forall>w. getWordFrequency d' w = getWordFrequency d w))"
proof -
  let ?es = "word_frequencies d"
  let ?d' = "add_entries ?es (clear d0)"
  from reachable_invariants [OF assms(1)] have low: "words_lowercase d" and agr: "frequencies_agree d"
    by auto
  from agr have dist: "distinct (map fst ?es)" and keys: "fst ` set ?es = set (word_set d)"
    by (simp_all add: frequencies_agree_def)
  have k1: "\<forall>e\<in>set ?es. fst e \<noteq> [] \<and> to_lower (fst e) = fst e"
    using low keys unfolding words_lowercase_def by blast
  have k2: "\<forall>e\<in>set ?es. plain_word (fst e)"
    using assms(2) keys unfolding getAllWords_def by blast
  have nl: "\<forall>l\<in>set (map entry_line ?es). CHR 0x0A \<notin> set l"
  proof
    fix l assume "l \<in> set (map entry_line ?es)"
    then obtain e where e: "e \<in> set ?es" "l = entry_line e" by auto
    with k2 have "plain_word (fst e)" by blast
    from entry_line_chars(1) [OF this, of "snd e"] e(2) show "CHR 0x0A \<notin> set l" by simp
  qed
  have "file_contents d = concat (map (\<lambda>l. l @ [CHR 0x0A]) (map entry_line ?es))"
    by (simp add: file_contents_def comp_def)
  then have "getlines (file_contents d) [] = map entry_line ?es"
    using getlines_concat [OF nl] by simp
  then have load: "loadFromFile (Some (file_contents d)) d0 = Inr (True, ?d')"
    by (simp add: loadFromFile_def load_lines_entries [OF k2])
  have "set (getAllWords ?d') = set (getAllWords d)"
    using add_entries_word_set [OF k1, of "clear d0"] keys by (simp add: getAllWords_def clear_def)
  moreover have "map_of (word_frequencies ?d') = map_of ?es"
    using add_entries_frequencies [OF k1 dist, of "clear d0"] by (simp add: clear_def)
  then have "getWordFrequency ?d' w = getWordFrequency d w" for w
    by (simp add: getWordFrequency_def)
  ultimately show ?thesis using load by (auto simp: saveToFile_def)
qed

theorem save_load_roundtrip_witness:
  "file_contents lexicon_fruit = ''banana:1\<newline>apple:3\<newline>'' \<and>
   list_all plain_word (getAllWords lexicon_fruit) \<and>
   (case loadFromFile (Some (file_contents lexicon_fruit)) Dictionary of
      Inl e \<Rightarrow> False
    | Inr r \<Rightarrow> fst r \<and> set (getAllWords (snd r)) = set (getAllWords lexicon_fruit) \<and>
              getWordFrequency (snd r) ''apple'' = 3 \<and> getWordFrequency (snd r) ''banana'' = 1)"
proof -
  have r: "reachable lexicon_fruit" unfolding lexicon_fruit_def by (intro reachable.intros)
  have c: "file_contents lexicon_fruit = ''banana:1\<newline>apple:3\<newline>''" by code_simp
  have l: "list_all plain_word (getAllWords lexicon_fruit)" by code_simp
  then have p: "\<forall>w\<in>set (getAllWords lexicon_fruit). plain_word w" by (simp add: list_all_iff)
  have f: "getWordFrequency lexicon_fruit ''apple'' = 3" "getWordFrequency lexicon_fruit ''banana'' = 1"
    by code_simp+
  from save_load_roundtrip [OF r p, of Dictionary] obtain d'
    where "loadFromFile (Some (file_contents lexicon_fruit)) Dictionary = Inr (True, d')"
      "set (getAllWords d') = set (getAllWords lexicon_fruit)"
      "\<forall>w. getWordFrequency d' w = getWordFrequency lexicon_fruit w" by blast
  with c l f show ?thesis by simp
qed

text \<open>
  \<open>addWord\<close> stores any non-empty string. The claim as stated fails for a word
  with a space, which \<open>loadFromFile\<close> strips from the line, and for a word with a
  colon, where the line is split at the first colon and the rest is not a
  number.
\<close>

theorem save_load_roundtrip_counterexample:
  "getAllWords (addWord Dictionary ''a b'' 1) = [''a b''] \<and>
   file_contents (addWord Dictionary ''a b'' 1) = ''a b:1\<newline>'' \<and>
   (case loadFromFile (Some (file_contents (addWord Dictionary ''a b'' 1))) Dictionary of
      Inl e \<Rightarrow> False
    | Inr r \<Rightarrow> fst r \<and> getAllWords (snd r) = [''ab'']) \<and>
   file_contents (addWord Dictionary ''a:b'' 1) = ''a:b:1\<newline>'' \<and>
   loadFromFile (Some (file_contents (addWord Dictionary ''a:b'' 1))) Dictionary
     = Inl invalid_argument"
  by code_simp

text \<open>
  Claim C3 at concrete inputs. For a file that opens and has a line whose
  frequency has no digit, or a frequency beyond \<open>unsigned long\<close>, the exception of
  \<open>std::stoul\<close> leaves \<open>loadFromFile\<close>: the function does not return.
\<close>

theorem loadFromFile_malformed_frequency:
  "loadFromFile (Some ''word:abc\<newline>'') Dictionary = Inl invalid_argument \<and>
   loadFromFile (Some ''good:1\<newline>word:\<newline>'') Dictionary = Inl invalid_argument \<and>
   loadFromFile (Some ''word:99999999999999999999\<newline>'') Dictionary = Inl out_of_range"
  by code_simp



section \<open>Tokens with lines and columns\<close>

lemma match_word_at_le: "match_word_at s \<le> length s"
proof -
  let ?n = "length (takeWhile isalpha s)"
  have n: "?n \<le> length s" by (rule length_takeWhile_le)
  have "?n + 1 + length (takeWhile isalpha (tl (drop ?n s))) \<le> length s"
    if "2 \<le> length (drop ?n s)"
  proof -
    have "length (takeWhile isalpha (tl (drop ?n s))) \<le> length (tl (drop ?n s))"
      by (rule length_takeWhile_le)
    with that show ?thesis by simp
  qed
  with n show ?thesis by (simp add: match_word_at_def Let_def)
qed

declare advance_line.simps [simp del]
declare word_matches.simps [simp del]

lemma find_char_None: "find_char c s = None \<Longrightarrow> c \<notin> set s"
  by (simp add: find_char_def split: if_splits)

lemma find_char_Some:
  assumes "find_char c s = Some k"
  shows "k < length s" "s ! k = c" "\<forall>j<k. s ! j \<noteq> c"
proof -
  from assms have in_s: "c \<in> set s" and k: "k = length (takeWhile (\<lambda>x. x \<noteq> c) s)"
    by (simp_all add: find_char_def split: if_splits)
  have "takeWhile (\<lambda>x. x \<noteq> c) s \<noteq> s"
    using in_s by (auto simp: takeWhile_eq_all_conv)
  then have "length (takeWhile (\<lambda>x. x \<noteq> c) s) \<noteq> length s"
    by (metis takeWhile_eq_take take_all_iff order_refl)
  with length_takeWhile_le [of "\<lambda>x. x \<noteq> c" s] show lt: "k < length s" unfolding k by simp
  from nth_length_takeWhile [of "\<lambda>x. x \<noteq> c" s] lt show "s ! k = c" unfolding k by simp
  show "\<forall>j<k. s ! j \<noteq> c"
  proof (intro allI impI)
    fix j assume "j < k"
    then have j: "j < length (takeWhile (\<lambda>x. x \<noteq> c) s)" by (simp add: k)
    then have "takeWhile (\<lambda>x. x \<noteq> c) s ! j \<in> set (takeWhile (\<lambda>x. x \<noteq> c) s)" by (rule nth_mem)
    then have "takeWhile (\<lambda>x. x \<noteq> c) s ! j \<noteq> c" by (auto dest: set_takeWhileD)
    with takeWhile_nth [OF j] show "s ! j \<noteq> c" by simp
  qed
qed

lemma find_from_None:
  assumes "find_from c str s = None" and "s \<le> i" and "i < length str"
  shows "str ! i \<noteq> c"
proof -
  from assms(1) have "find_char c (drop s str) = None"
    by (simp add: find_from_def split: option.splits)
  then have "c \<notin> set (drop s str)" by (rule find_char_None)
  moreover have "drop s str ! (i - s) = str ! i" using assms(2,3) by simp
  moreover have "i - s < length (drop s str)" using assms(2,3) by simp
  ultimately show ?thesis by (metis nth_mem)
qed

lemma find_from_Some:
  assumes "find_from c str s = Some n"
  shows "s \<le> n" "n < length str" "str ! n = c" "\<forall>i. s \<le> i \<and> i < n \<longrightarrow> str ! i \<noteq> c"
proof -
  from assms obtain k where k: "find_char c (drop s str) = Some k" and n: "n = s + k"
    by (auto simp: find_from_def split: option.splits)
  from find_char_Some [OF k] have 1: "k < length (drop s str)" and 2: "drop s str ! k = c"
    and 3: "\<forall>j<k. drop s str ! j \<noteq> c" by auto
  show "s \<le> n" by (simp add: n)
  from 1 show lt: "n < length str" by (simp add: n)
  from 2 lt show "str ! n = c" by (simp add: n)
  show "\<forall>i. s \<le> i \<and> i < n \<longrightarrow> str ! i \<noteq> c"
  proof (intro allI impI)
    fix i assume i: "s \<le> i \<and> i < n"
    then have "i - s < k" by (simp add: n less_diff_conv2)
    with 3 have "drop s str ! (i - s) \<noteq> c" by blast
    moreover have "drop s str ! (i - s) = str ! i" using i lt by simp
    ultimately show "str ! i \<noteq> c" by simp
  qed
qed

lemma newlines_before_split:
  "a \<le> b \<Longrightarrow> newlines_before str b =
     newlines_before str a @ filter (\<lambda>i. i < length str \<and> str ! i = CHR 0x0A) [a..<b]"
proof -
  assume "a \<le> b"
  then have "[0..<a + (b - a)] = [0..<a] @ [a..<a + (b - a)]" by (intro upt_add_eq_append) simp
  with \<open>a \<le> b\<close> have "[0..<b] = [0..<a] @ [a..<b]" by simp
  then show ?thesis by (simp add: newlines_before_def)
qed

lemma newlines_before_same:
  assumes "a \<le> b" and "\<forall>i. a \<le> i \<and> i < b \<and> i < length str \<longrightarrow> str ! i \<noteq> CHR 0x0A"
  shows "newlines_before str b = newlines_before str a"
proof -
  have "filter (\<lambda>i. i < length str \<and> str ! i = CHR 0x0A) [a..<b] = []"
    using assms(2) by (auto simp: filter_empty_conv)
  with newlines_before_split [OF assms(1), of str] show ?thesis by simp
qed

lemma newlines_before_snoc:
  assumes "a \<le> n" and "n < length str" and "str ! n = CHR 0x0A"
    and "\<forall>i. a \<le> i \<and> i < n \<longrightarrow> str ! i \<noteq> CHR 0x0A"
  shows "newlines_before str (Suc n) = newlines_before str a @ [n]"
proof -
  have "newlines_before str n = newlines_before str a"
    using assms(1,4) by (intro newlines_before_same) auto
  moreover have "newlines_before str (Suc n) = newlines_before str n @ [n]"
    using assms(2,3) by (simp add: newlines_before_def)
  ultimately show ?thesis by simp
qed

lemma tracked_final:
  assumes "tracked str line_number line_start"
    and "newlines_before str (position + 1) = newlines_before str line_start"
  shows "(line_number, line_start) = (line_number_at str position, line_start_at str position)"
  using assms by (simp add: tracked_def line_number_at_def line_start_at_def Let_def)

lemma advance_line_spec:
  "tracked str line_number line_start \<Longrightarrow> line_start \<le> position + 1 \<Longrightarrow>
   advance_line str position line_number line_start =
     (line_number_at str position, line_start_at str position)"
proof (induction str position line_number line_start rule: advance_line.induct)
  case (1 str position line_number line_start)
  note tr = "1.prems"(1)
  show ?case
  proof (cases "line_start \<le> position")
    case False
    with "1.prems"(2) have "line_start = position + 1" by simp
    then have "newlines_before str (position + 1) = newlines_before str line_start" by simp
    from tracked_final [OF tr this] False show ?thesis
      by (subst advance_line.simps) simp
  next
    case le: True
    show ?thesis
    proof (cases "find_from CHR 0x0A str line_start")
      case None
      have "newlines_before str (position + 1) = newlines_before str line_start"
        using le find_from_None [OF None] by (intro newlines_before_same) auto
      from tracked_final [OF tr this] le None show ?thesis
        by (subst advance_line.simps) simp
    next
      case (Some n)
      note f = find_from_Some [OF Some]
      show ?thesis
      proof (cases "n > position")
        case True
        have "newlines_before str (position + 1) = newlines_before str line_start"
          using le f(4) True by (intro newlines_before_same) auto
        from tracked_final [OF tr this] le Some True show ?thesis
          by (subst advance_line.simps) simp
      next
        case False
        have nb: "newlines_before str (Suc n) = newlines_before str line_start @ [n]"
          using f by (intro newlines_before_snoc) auto
        have "tracked str (line_number + 1) (n + 1)"
          using tr by (simp add: tracked_def nb)
        moreover have "n + 1 \<le> position + 1" using False by simp
        ultimately have "advance_line str position (line_number + 1) (n + 1) =
            (line_number_at str position, line_start_at str position)"
          using le Some False by (intro "1.IH") auto
        with le Some False show ?thesis
          by (subst advance_line.simps) simp
      qed
    qed
  qed
qed

lemma line_start_at_le:
  assumes "p < length str" and "str ! p \<noteq> CHR 0x0A"
  shows "line_start_at str p \<le> p"
proof (cases "newlines_before str (p + 1) = []")
  case True
  then show ?thesis by (simp add: line_start_at_def)
next
  case False
  then have "last (newlines_before str (p + 1)) \<in> set (newlines_before str (p + 1))"
    by (rule last_in_set)
  then have "last (newlines_before str (p + 1)) < p + 1"
    and "str ! last (newlines_before str (p + 1)) = CHR 0x0A"
    by (auto simp: newlines_before_def)
  with assms(2) have "last (newlines_before str (p + 1)) < p"
    by (metis Suc_eq_plus1 less_SucE)
  with False show ?thesis by (simp add: line_start_at_def Let_def)
qed

lemma match_word_at_pos:
  assumes "match_word_at s \<noteq> 0"
  shows "s \<noteq> []" "isalpha (hd s)"
proof -
  from assms have n: "length (takeWhile isalpha s) \<noteq> 0"
    by (auto simp: match_word_at_def Let_def split: if_splits)
  then show "s \<noteq> []" by auto
  from n show "isalpha (hd s)" by (cases s) (auto split: if_splits)
qed

lemma located_mono: "located str (Suc q) m \<Longrightarrow> located str q m"
  by (simp add: located_def)

lemma word_matches_located:
  "(\<forall>m\<in>set (word_matches str q). located str q m) \<and>
   sorted_wrt (<) (map snd (word_matches str q))"
proof (induction str q rule: word_matches.induct)
  case (1 str position)
  show ?case
  proof (cases "length str \<le> position")
    case True
    then show ?thesis by (subst (1 2) word_matches.simps) simp
  next
    case lt: False
    let ?n = "match_word_at (drop position str)"
    show ?thesis
    proof (cases "?n = 0")
      case True
      with lt have e: "word_matches str position = word_matches str (position + 1)"
        by (subst word_matches.simps) (simp add: Let_def)
      from "1.IH"(1) [OF lt refl True] show ?thesis
        unfolding e by (auto intro: located_mono)
    next
      case False
      let ?w = "take ?n (drop position str)"
      from lt False have e: "word_matches str position =
          (?w, position) # word_matches str (position + ?n)"
        by (subst word_matches.simps) (simp add: Let_def)
      from "1.IH"(2) [OF lt refl False]
      have ih: "\<forall>m\<in>set (word_matches str (position + ?n)). located str (position + ?n) m"
        and so: "sorted_wrt (<) (map snd (word_matches str (position + ?n)))" by auto
      from match_word_at_pos [OF False] lt
      have al: "isalpha (str ! position)" by (simp add: hd_drop_conv_nth)
      have ne: "?w \<noteq> []" using False lt by simp
      have "?n \<le> length (drop position str)" by (rule match_word_at_le)
      then have tk: "?w = take (length ?w) (drop position str)" by (simp add: min_absorb2)
      have hd: "located str position (?w, position)"
        unfolding located_def using lt al ne tk by simp
      have tl: "located str position m \<and> position < snd m"
        if "m \<in> set (word_matches str (position + ?n))" for m
      proof -
        from ih that have "located str (position + ?n) m" by blast
        with False show ?thesis by (auto simp: located_def)
      qed
      from hd tl so show ?thesis unfolding e by auto
    qed
  qed
qed

lemma line_start_at_le_Suc: "line_start_at str p \<le> p + 1"
proof (cases "newlines_before str (p + 1) = []")
  case True
  then show ?thesis by (simp add: line_start_at_def)
next
  case False
  then have "last (newlines_before str (p + 1)) \<in> set (newlines_before str (p + 1))"
    by (rule last_in_set)
  then have "last (newlines_before str (p + 1)) < p + 1"
    by (auto simp: newlines_before_def)
  with False show ?thesis by (simp add: line_start_at_def Let_def)
qed

lemma advance_line_tracked:
  "tracked str line_number line_start \<Longrightarrow> line_start \<le> position + 1 \<Longrightarrow>
   tracked str (line_number_at str position) (line_start_at str position)"
proof (induction str position line_number line_start rule: advance_line.induct)
  case (1 str position line_number line_start)
  note tr = "1.prems"(1)
  have fin: "tracked str (line_number_at str position) (line_start_at str position)"
    if "newlines_before str (position + 1) = newlines_before str line_start"
    using tracked_final [OF tr that] tr by simp
  show ?case
  proof (cases "line_start \<le> position")
    case False
    with "1.prems"(2) have "line_start = position + 1" by simp
    then show ?thesis by (intro fin) simp
  next
    case le: True
    show ?thesis
    proof (cases "find_from CHR 0x0A str line_start")
      case None
      show ?thesis
        using le find_from_None [OF None] by (intro fin newlines_before_same) auto
    next
      case (Some n)
      note f = find_from_Some [OF Some]
      show ?thesis
      proof (cases "n > position")
        case True
        show ?thesis
          using le f(4) True by (intro fin newlines_before_same) auto
      next
        case False
        have nb: "newlines_before str (Suc n) = newlines_before str line_start @ [n]"
          using f by (intro newlines_before_snoc) auto
        have t1: "tracked str (line_number + 1) (n + 1)"
          using tr by (simp add: tracked_def nb)
        have t2: "n + 1 \<le> position + 1" using False by simp
        from "1.IH" [OF le Some False t1 t2] show ?thesis .
      qed
    qed
  qed
qed

lemma extract_loop_spec:
  "sorted_wrt (<) (map snd ms) \<Longrightarrow> tracked str line_number line_start \<Longrightarrow>
   (\<forall>m\<in>set ms. line_start \<le> snd m + 1) \<Longrightarrow>
   extract_loop tp str ms line_number line_start =
     map (token_of tp str) (filter (\<lambda>m. \<not> shouldIgnoreWord tp (fst m)) ms)"
proof (induction ms arbitrary: line_number line_start)
  case Nil
  then show ?case by simp
next
  case (Cons m ms)
  let ?p = "snd m"
  from Cons.prems(3) have le: "line_start \<le> ?p + 1" by simp
  have adv: "advance_line str ?p line_number line_start =
      (line_number_at str ?p, line_start_at str ?p)"
    using Cons.prems(2) le by (rule advance_line_spec)
  have tr: "tracked str (line_number_at str ?p) (line_start_at str ?p)"
    using Cons.prems(2) le by (rule advance_line_tracked)
  have "\<forall>m'\<in>set ms. line_start_at str ?p \<le> snd m' + 1"
  proof
    fix m' assume "m' \<in> set ms"
    with Cons.prems(1) have "?p < snd m'" by auto
    with line_start_at_le_Suc [of str ?p] show "line_start_at str ?p \<le> snd m' + 1" by simp
  qed
  moreover from Cons.prems(1) have "sorted_wrt (<) (map snd ms)" by simp
  ultimately have rest: "extract_loop tp str ms (line_number_at str ?p) (line_start_at str ?p) =
      map (token_of tp str) (filter (\<lambda>m. \<not> shouldIgnoreWord tp (fst m)) ms)"
    using tr by (intro Cons.IH)
  show ?case by (simp add: adv rest Let_def token_of_def)
qed

lemma tracked_start: "tracked str 1 0"
  by (simp add: tracked_def newlines_before_def)

text \<open>
  Claim C8. With the constructor's flags (case folding on) the text
  \<open>"Hello, world!\nFoo bar."\<close> gives \<open>(hello,1,1), (world,1,8), (foo,2,1),
  (bar,2,5)\<close>. For every text and every setting of the flags, the tokens are those
  of the matches that are not ignored, in the order of the matches; the positions
  of the matches are strictly ascending; and the token of a match at position
  \<open>p\<close> has the line number \<open>line_number_at p\<close> and the column
  \<open>p - line_start_at p + 1\<close>, where \<open>line_start_at p \<le> p\<close>.
\<close>

theorem extract_words_with_lines:
  "extractWordsWithLines TextProcessor ''Hello, world!\<newline>Foo bar.'' =
     [(''hello'', 1, 1), (''world'', 1, 8), (''foo'', 2, 1), (''bar'', 2, 5)] \<and>
   extractWordsWithLines tp str =
     map (\<lambda>m. (normalizeWord tp (fst m), line_number_at str (snd m),
               snd m - line_start_at str (snd m) + 1))
       (filter (\<lambda>m. \<not> shouldIgnoreWord tp (fst m)) (word_matches str 0)) \<and>
   sorted_wrt (<) (map snd (word_matches str 0)) \<and>
   (\<forall>m\<in>set (word_matches str 0).
      line_start_at str (snd m) \<le> snd m \<and> snd m < length str \<and> fst m \<noteq> [] \<and>
      fst m = take (length (fst m)) (drop (snd m) str))"
proof -
  have ex: "extractWordsWithLines TextProcessor ''Hello, world!\<newline>Foo bar.'' =
     [(''hello'', 1, 1), (''world'', 1, 8), (''foo'', 2, 1), (''bar'', 2, 5)]"
    by code_simp
  from word_matches_located [of str 0]
  have loc: "\<forall>m\<in>set (word_matches str 0). located str 0 m"
    and so: "sorted_wrt (<) (map snd (word_matches str 0))" by auto
  have "extract_loop tp str (word_matches str 0) 1 0 =
      map (token_of tp str) (filter (\<lambda>m. \<not> shouldIgnoreWord tp (fst m)) (word_matches str 0))"
    using so tracked_start by (intro extract_loop_spec) auto
  then have gen: "extractWordsWithLines tp str =
     map (\<lambda>m. (normalizeWord tp (fst m), line_number_at str (snd m),
               snd m - line_start_at str (snd m) + 1))
       (filter (\<lambda>m. \<not> shouldIgnoreWord tp (fst m)) (word_matches str 0))"
    by (simp add: extractWordsWithLines_def token_of_def [abs_def])
  have pos: "line_start_at str (snd m) \<le> snd m \<and> snd m < length str \<and> fst m \<noteq> [] \<and>
      fst m = take (length (fst m)) (drop (snd m) str)"
    if "m \<in> set (word_matches str 0)" for m
  proof -
    from loc that have l: "located str 0 m" by blast
    then have "snd m < length str" "isalpha (str ! snd m)" by (simp_all add: located_def)
    moreover have "\<not> isalpha (CHR 0x0A)" by (simp add: isalpha_def isupper_def islower_def)
    ultimately have "str ! snd m \<noteq> CHR 0x0A" by auto
    with \<open>snd m < length str\<close> have "line_start_at str (snd m) \<le> snd m"
      by (rule line_start_at_le)
    with l show ?thesis by (simp add: located_def)
  qed
  from ex gen so pos show ?thesis by blast
qed

theorem extract_words_with_lines_witness:
  "word_matches ''Hello, world!\<newline>Foo bar.'' 0 =
     [(''Hello'', 0), (''world'', 7), (''Foo'', 14), (''bar'', 18)] \<and>
   map (line_start_at ''Hello, world!\<newline>Foo bar.'') [0, 7, 14, 18] = [0, 0, 14, 14] \<and>
   map (line_number_at ''Hello, world!\<newline>Foo bar.'') [0, 7, 14, 18] = [1, 1, 2, 2] \<and>
   extractWordsWithLines TextProcessor ''Hello, world!\<newline>Foo bar.'' =
     [(''hello'', 1, 0 - 0 + 1), (''world'', 1, 7 - 0 + 1), (''foo'', 2, 14 - 14 + 1),
      (''bar'', 2, 18 - 14 + 1)] \<and>
   list_all (\<lambda>m. line_start_at ''Hello, world!\<newline>Foo bar.'' (snd m) \<le> snd m)
     (word_matches ''Hello, world!\<newline>Foo bar.'' 0)"
proof -
  have w: "word_matches ''Hello, world!\<newline>Foo bar.'' 0 =
     [(''Hello'', 0), (''world'', 7), (''Foo'', 14), (''bar'', 18)]" by code_simp
  have s: "map (line_start_at ''Hello, world!\<newline>Foo bar.'') [0, 7, 14, 18] = [0, 0, 14, 14]"
    by code_simp
  have n: "map (line_number_at ''Hello, world!\<newline>Foo bar.'') [0, 7, 14, 18] = [1, 1, 2, 2]"
    by code_simp
  from extract_words_with_lines [of TextProcessor "''Hello, world!\<newline>Foo bar.''"]
  have e: "extractWordsWithLines TextProcessor ''Hello, world!\<newline>Foo bar.'' =
     [(''hello'', 1, 1), (''world'', 1, 8), (''foo'', 2, 1), (''bar'', 2, 5)]"
    and b: "\<forall>m\<in>set (word_matches ''Hello, world!\<newline>Foo bar.'' 0).
      line_start_at ''Hello, world!\<newline>Foo bar.'' (snd m) \<le> snd m"
    by blast+
  from b have l: "list_all (\<lambda>m. line_start_at ''Hello, world!\<newline>Foo bar.'' (snd m) \<le> snd m)
     (word_matches ''Hello, world!\<newline>Foo bar.'' 0)" by (simp only: list_all_iff)
  from e have e': "extractWordsWithLines TextProcessor ''Hello, world!\<newline>Foo bar.'' =
     [(''hello'', 1, 0 - 0 + 1), (''world'', 1, 7 - 0 + 1), (''foo'', 2, 14 - 14 + 1),
      (''bar'', 2, 18 - 14 + 1)]" by simp
  from w s n e' l show ?thesis by blast
qed

end
